theory Spec2Isabelle
  imports Main "HOL-Library.Word"
begin

section \<open>Strings and character classes\<close>

text \<open>
  The sources hold two variants of the module with \<open>normalizeHebrew\<close>, \<open>isPalindrome\<close>
  and \<open>findPalindromes\<close>. This theory embeds the later one, the variant the specification
  follows: its normalizer strips reference annotations first, and its scan keeps one match
  for each canonical form and returns the matches sorted by length.

  A JavaScript string is a sequence of UTF-16 code units. The regular expressions of
  the source carry no \<open>u\<close> flag, and \<open>length\<close>, \<open>substring\<close>, indexing and
  \<open>split('')\<close> all count code units, so a string is modelled as a list of 16-bit words.
\<close>

type_synonym cu = "16 word"
type_synonym jsstring = "cu list"

text \<open>The class of the code units U+05D0 to U+05EA (the Hebrew letters, final forms included).\<close>

definition isHebrew :: "cu \<Rightarrow> bool" where
  "isHebrew c \<longleftrightarrow> 0x5D0 \<le> c \<and> c \<le> 0x5EA"

text \<open>The class of the code units U+0591 to U+05C7 (vowel points and cantillation marks).\<close>

definition isNiqqud :: "cu \<Rightarrow> bool" where
  "isNiqqud c \<longleftrightarrow> 0x591 \<le> c \<and> c \<le> 0x5C7"

text \<open>
  The class that may open a reference: double quote, apostrophe, gershayim (U+05F4),
  geresh (U+05F3) and the opening parenthesis; and the class that may close it, with the
  closing parenthesis instead.
\<close>

definition isRefOpen :: "cu \<Rightarrow> bool" where
  "isRefOpen c \<longleftrightarrow> c = 0x22 \<or> c = 0x27 \<or> c = 0x5F4 \<or> c = 0x5F3 \<or> c = 0x28"

definition isRefClose :: "cu \<Rightarrow> bool" where
  "isRefClose c \<longleftrightarrow> c = 0x22 \<or> c = 0x27 \<or> c = 0x5F4 \<or> c = 0x5F3 \<or> c = 0x29"

text \<open>The separator class: comma and colon.\<close>

definition isRefSep :: "cu \<Rightarrow> bool" where
  "isRefSep c \<longleftrightarrow> c = 0x2C \<or> c = 0x3A"

text \<open>The opening class (parenthesis or square bracket) and the closing class of the second pattern.\<close>

definition isParenOpen :: "cu \<Rightarrow> bool" where
  "isParenOpen c \<longleftrightarrow> c = 0x28 \<or> c = 0x5B"

definition isParenClose :: "cu \<Rightarrow> bool" where
  "isParenClose c \<longleftrightarrow> c = 0x29 \<or> c = 0x5D"

text \<open>
  The white space class of regular expressions, which is also what \<open>trim\<close> removes:
  the ECMAScript white space and line terminator code units.
\<close>

definition isWhiteSpace :: "cu \<Rightarrow> bool" where
  "isWhiteSpace c \<longleftrightarrow>
     c = 0x9 \<or> c = 0xA \<or> c = 0xB \<or> c = 0xC \<or> c = 0xD \<or> c = 0x20 \<or> c = 0xA0
     \<or> c = 0x1680 \<or> (0x2000 \<le> c \<and> c \<le> 0x200A) \<or> c = 0x2028 \<or> c = 0x2029
     \<or> c = 0x202F \<or> c = 0x205F \<or> c = 0x3000 \<or> c = 0xFEFF"

text \<open>
  The class tested on the first code unit of a candidate span: a Hebrew letter, a quote
  mark (double quote, apostrophe, gershayim, geresh) or an opening parenthesis.
\<close>

definition isStart :: "cu \<Rightarrow> bool" where
  "isStart c \<longleftrightarrow>
     isHebrew c \<or> c = 0x22 \<or> c = 0x27 \<or> c = 0x5F4 \<or> c = 0x5F3 \<or> c = 0x28"

section \<open>Regular expressions of the source\<close>

text \<open>
  Both patterns of \<open>normalizeHebrew\<close> are concatenations of character classes, each under
  a greedy quantifier \<open>{lo,hi}\<close> (\<open>?\<close> is \<open>{0,1}\<close>, \<open>+\<close> is \<open>{1,}\<close>, a bare
  class is \<open>{1,1}\<close>). An item is such a quantified class; \<open>hi = None\<close> is no upper
  bound.
\<close>

datatype item = Item (cls: "cu \<Rightarrow> bool") (lo: nat) (hi: "nat option")

text \<open>
  Backtracking over a greedy quantifier: the continuation \<open>f\<close> is tried after \<open>n\<close>
  repetitions, then after \<open>n - 1\<close>, and so on down to \<open>lo\<close>; the first success wins.
\<close>

primrec backtrack :: "(nat \<Rightarrow> nat option) \<Rightarrow> nat \<Rightarrow> nat \<Rightarrow> nat option" where
  "backtrack f l 0 = (if l = 0 then f 0 else None)"
| "backtrack f l (Suc n) =
     (if Suc n < l then None
      else case f (Suc n) of Some r \<Rightarrow> Some r | None \<Rightarrow> backtrack f l n)"

text \<open>
  \<open>matchSeq p s\<close> is the match of pattern \<open>p\<close> anchored at the start of \<open>s\<close>: the
  number of code units the backtracking matcher consumes, or \<open>None\<close> when no match starts
  there. A greedy item first takes as many code units of its class as there are, up to
  \<open>hi\<close>.
\<close>

primrec matchSeq :: "item list \<Rightarrow> jsstring \<Rightarrow> nat option" where
  "matchSeq [] s = Some 0"
| "matchSeq (it # its) s =
     (let avail = length (takeWhile (cls it) s);
          n = (case hi it of None \<Rightarrow> avail | Some h \<Rightarrow> min h avail)
      in backtrack (\<lambda>k. map_option (\<lambda>r. k + r) (matchSeq its (drop k s))) (lo it) n)"

text \<open>
  \<open>String.prototype.replace\<close> with a global pattern and a replacement string without
  \<open>$\<close>: the leftmost match is replaced and the search resumes after it; where nothing
  matches the code unit is copied. (After an empty match the search advances by one code
  unit; the patterns of this program never match the empty string.)
\<close>

fun replaceG :: "item list \<Rightarrow> jsstring \<Rightarrow> jsstring \<Rightarrow> jsstring" where
  "replaceG p r [] = (case matchSeq p [] of None \<Rightarrow> [] | Some _ \<Rightarrow> r)"
| "replaceG p r (c # s) =
     (case matchSeq p (c # s) of
        None \<Rightarrow> c # replaceG p r s
      | Some 0 \<Rightarrow> r @ c # replaceG p r s
      | Some (Suc k) \<Rightarrow> r @ replaceG p r (drop k s))"

text \<open>
  \<open>refPattern\<close>: an optional opening mark, one to three Hebrew letters, a separator,
  one to three Hebrew letters, an optional closing mark.
\<close>

definition refPattern :: "item list" where
  "refPattern =
     [Item isRefOpen 0 (Some 1), Item isHebrew 1 (Some 3), Item isRefSep 1 (Some 1),
      Item isHebrew 1 (Some 3), Item isRefClose 0 (Some 1)]"

text \<open>
  \<open>parenRefPattern\<close>: an opening parenthesis or bracket, one to three Hebrew letters,
  one or more white space code units, one to three Hebrew letters, a closing parenthesis
  or bracket.
\<close>

definition parenRefPattern :: "item list" where
  "parenRefPattern =
     [Item isParenOpen 1 (Some 1), Item isHebrew 1 (Some 3), Item isWhiteSpace 1 None,
      Item isHebrew 1 (Some 3), Item isParenClose 1 (Some 1)]"

section \<open>normalizeHebrew\<close>

text \<open>
  \<open>sofitMap\<close>: the five final letters and the regular letters they fold to.
\<close>

definition sofitMap :: "cu \<Rightarrow> cu option" where
  "sofitMap c =
     (if c = 0x5DA then Some 0x5DB
      else if c = 0x5DD then Some 0x5DE
      else if c = 0x5DF then Some 0x5E0
      else if c = 0x5E3 then Some 0x5E4
      else if c = 0x5E5 then Some 0x5E6
      else None)"

text \<open>
  The \<open>for (const char of noVowels)\<close> loop, appending to \<open>normalized\<close>. The loop walks
  code points; a surrogate pair is neither a key of \<open>sofitMap\<close> nor matched by
  the Hebrew letter class, so it is dropped exactly as its two code units are dropped
  one by one.
\<close>

fun sofitLoop :: "jsstring \<Rightarrow> jsstring \<Rightarrow> jsstring" where
  "sofitLoop normalized [] = normalized"
| "sofitLoop normalized (c # cs) =
     (case sofitMap c of
        Some d \<Rightarrow> sofitLoop (normalized @ [d]) cs
      | None \<Rightarrow>
          if isHebrew c then sofitLoop (normalized @ [c]) cs
          else sofitLoop normalized cs)"

definition stripRefs :: "jsstring \<Rightarrow> jsstring" where
  "stripRefs text = replaceG parenRefPattern [0x20] (replaceG refPattern [0x20] text)"

definition normalizeHebrew :: "jsstring \<Rightarrow> jsstring" where
  "normalizeHebrew text =
     (let textWithoutRefs = stripRefs text;
          noVowels = filter (\<lambda>c. \<not> isNiqqud c) textWithoutRefs
      in sofitLoop [] noVowels)"

section \<open>isPalindrome\<close>

definition isPalindrome :: "jsstring \<Rightarrow> bool" where
  "isPalindrome str = (if length str < 3 then False else str = rev str)"

section \<open>findPalindromes\<close>

text \<open>
  \<open>String.prototype.substring\<close>: both offsets are clamped to the length and swapped
  when out of order. \<open>String.prototype.trim\<close> removes white space at both ends.
\<close>

definition substring :: "jsstring \<Rightarrow> nat \<Rightarrow> nat \<Rightarrow> jsstring" where
  "substring s start fin =
     (let a = min start (length s); b = min fin (length s)
      in take (max a b - min a b) (drop (min a b) s))"

definition trim :: "jsstring \<Rightarrow> jsstring" where
  "trim s = rev (dropWhile isWhiteSpace (rev (dropWhile isWhiteSpace s)))"

text \<open>
  An element of \<open>results\<close>. The field \<open>length\<close> of the source is \<open>length_m\<close> here.
  The parameters \<open>minLength\<close> and \<open>maxLength\<close> are integers (the callers pass 3 and
  50 or 60), possibly zero or negative.
\<close>

record Match =
  normalized :: jsstring
  original :: jsstring
  length_m :: nat

text \<open>
  The inner loop \<open>for (let j = i + 1; j <= text.length; j++)\<close>, with its two
  \<open>break\<close>s; \<open>results\<close> is the array the loop pushes to.
\<close>

function innerLoop ::
  "jsstring \<Rightarrow> int \<Rightarrow> int \<Rightarrow> nat \<Rightarrow> nat \<Rightarrow> Match list \<Rightarrow> Match list" where
  "innerLoop text minLength maxLength i j results =
     (if j \<le> length text then
        (let originalSub = substring text i j in
         if int (length originalSub) > maxLength * 4 then results
         else
           (let normalizedSub = normalizeHebrew originalSub in
            if int (length normalizedSub) > maxLength then results
            else if int (length normalizedSub) \<ge> minLength \<and> isPalindrome normalizedSub
            then innerLoop text minLength maxLength i (j + 1)
                   (results @ [\<lparr>normalized = normalizedSub, original = trim originalSub,
                                length_m = length normalizedSub\<rparr>])
            else innerLoop text minLength maxLength i (j + 1) results))
      else results)"
  by pat_completeness auto
termination
  by (relation "measure (\<lambda>(text, minLength, maxLength, i, j, results). Suc (length text) - j)")
    auto

text \<open>The outer loop \<open>for (let i = 0; i < text.length; i++)\<close>, with its \<open>continue\<close>.\<close>

function outerLoop ::
  "jsstring \<Rightarrow> int \<Rightarrow> int \<Rightarrow> nat \<Rightarrow> Match list \<Rightarrow> Match list" where
  "outerLoop text minLength maxLength i results =
     (if i < length text then
        (if \<not> isStart (text ! i) then outerLoop text minLength maxLength (i + 1) results
         else outerLoop text minLength maxLength (i + 1)
                (innerLoop text minLength maxLength i (i + 1) results))
      else results)"
  by pat_completeness auto
termination
  by (relation "measure (\<lambda>(text, minLength, maxLength, i, results). length text - i)") auto

text \<open>
  \<open>uniqueMatches\<close> is a \<open>Map\<close>: its keys keep the order of first insertion, and
  \<open>set\<close> on a key already present replaces the value in place. It is modelled as a list
  of pairs.
\<close>

type_synonym jsmap = "(jsstring \<times> Match) list"

fun mapSet :: "jsmap \<Rightarrow> jsstring \<Rightarrow> Match \<Rightarrow> jsmap" where
  "mapSet [] key v = [(key, v)]"
| "mapSet ((k, w) # m) key v = (if k = key then (k, v) # m else (k, w) # mapSet m key v)"

text \<open>The body of \<open>results.forEach\<close>.\<close>

definition dedupStep :: "jsmap \<Rightarrow> Match \<Rightarrow> jsmap" where
  "dedupStep uniqueMatches res =
     (let key = normalized res in
      case map_of uniqueMatches key of
        None \<Rightarrow> mapSet uniqueMatches key res
      | Some existing \<Rightarrow>
          if length (original res) < length (original existing)
          then mapSet uniqueMatches key res
          else uniqueMatches)"

text \<open>
  \<open>sort((a, b) => b.length - a.length)\<close>: \<open>Array.prototype.sort\<close> is stable, and the
  comparator orders by descending \<open>length\<close>; \<open>sort_key\<close> is the stable insertion sort
  of the library, here on the negated length.
\<close>

definition sortByLengthDesc :: "Match list \<Rightarrow> Match list" where
  "sortByLengthDesc ms = sort_key (\<lambda>m. - int (length_m m)) ms"

text \<open>The scan alone: the array \<open>results\<close> when both loops are done.\<close>

definition scanResults :: "jsstring \<Rightarrow> int \<Rightarrow> int \<Rightarrow> Match list" where
  "scanResults text minLength maxLength = outerLoop text minLength maxLength 0 []"

text \<open>
  The second half of \<open>findPalindromes\<close>, from \<open>const uniqueMatches = new Map\<close> to the
  \<open>return\<close>: sort \<open>results\<close>, run \<open>forEach\<close> over it, sort the values of the map.
\<close>

definition resolve :: "Match list \<Rightarrow> Match list" where
  "resolve results =
     (let results = sortByLengthDesc results;
          uniqueMatches = foldl dedupStep [] results
      in sortByLengthDesc (map snd uniqueMatches))"

definition findPalindromes :: "jsstring \<Rightarrow> int \<Rightarrow> int \<Rightarrow> Match list" where
  "findPalindromes text minLength maxLength = resolve (scanResults text minLength maxLength)"

section \<open>Notions used in the statements\<close>

text \<open>
  The 22 letters of the base alphabet (U+05D0 to U+05EA without the final forms), and the
  five final forms.
\<close>

definition baseLetters :: "cu list" where
  "baseLetters =
     [0x5D0, 0x5D1, 0x5D2, 0x5D3, 0x5D4, 0x5D5, 0x5D6, 0x5D7, 0x5D8, 0x5D9, 0x5DB,
      0x5DC, 0x5DE, 0x5E0, 0x5E1, 0x5E2, 0x5E4, 0x5E6, 0x5E7, 0x5E8, 0x5E9, 0x5EA]"

definition finalLetters :: "cu list" where
  "finalLetters = [0x5DA, 0x5DD, 0x5DF, 0x5E3, 0x5E5]"

text \<open>What one round of the folding loop appends for the code unit \<open>c\<close>.\<close>

definition sofitChar :: "cu \<Rightarrow> jsstring" where
  "sofitChar c =
     (case sofitMap c of Some d \<Rightarrow> [d] | None \<Rightarrow> if isHebrew c then [c] else [])"

text \<open>
  The element pushed for the span from offset \<open>i\<close> to offset \<open>j\<close>; the two tests
  that let the inner loop go on after that span (neither \<open>break\<close> is taken); and the
  test that makes the loop push it.
\<close>

definition spanMatch :: "jsstring \<Rightarrow> nat \<Rightarrow> nat \<Rightarrow> Match" where
  "spanMatch text i j =
     \<lparr>normalized = normalizeHebrew (substring text i j),
      original = trim (substring text i j),
      length_m = length (normalizeHebrew (substring text i j))\<rparr>"

definition withinBounds :: "jsstring \<Rightarrow> int \<Rightarrow> nat \<Rightarrow> nat \<Rightarrow> bool" where
  "withinBounds text maxLength i j \<longleftrightarrow>
     int (length (substring text i j)) \<le> maxLength * 4
     \<and> int (length (normalizeHebrew (substring text i j))) \<le> maxLength"

definition isHit :: "jsstring \<Rightarrow> int \<Rightarrow> nat \<Rightarrow> nat \<Rightarrow> bool" where
  "isHit text minLength i j \<longleftrightarrow>
     minLength \<le> int (length (normalizeHebrew (substring text i j)))
     \<and> isPalindrome (normalizeHebrew (substring text i j))"

text \<open>
  The group of the raw matches with canonical form \<open>k\<close>, in the order in which the scan
  met them, and its representative: the first element of the group whose original text
  no other element of the group undercuts in length.
\<close>

definition groupOf :: "Match list \<Rightarrow> jsstring \<Rightarrow> Match list" where
  "groupOf raw k = filter (\<lambda>x. normalized x = k) raw"

definition firstShortest :: "Match list \<Rightarrow> Match option" where
  "firstShortest g =
     List.find (\<lambda>x. \<forall>y \<in> set g. length (original x) \<le> length (original y)) g"

text \<open>
  A character class without white space, and the patterns in which white space after
  the subject cannot change a match: every item either has such a class or is followed by
  a mandatory item that has one.
\<close>

definition wsFree :: "(cu \<Rightarrow> bool) \<Rightarrow> bool" where
  "wsFree P \<longleftrightarrow> (\<forall>c. isWhiteSpace c \<longrightarrow> \<not> P c)"

primrec trailSafe :: "item list \<Rightarrow> bool" where
  "trailSafe [] = True"
| "trailSafe (it # its) =
     ((wsFree (cls it) \<or> (\<exists>it' \<in> set its. 0 < lo it' \<and> wsFree (cls it'))) \<and> trailSafe its)"

text \<open>
  The closing parenthesis and the closing bracket end every match that contains them: in
  both patterns they belong to the class of the last item only, and that item takes at
  most one code unit.
\<close>

fun stopSafe :: "item list \<Rightarrow> bool" where
  "stopSafe [] = True"
| "stopSafe [it] = (hi it = Some 1)"
| "stopSafe (it # its) = ((\<forall>c. isParenClose c \<longrightarrow> \<not> cls it c) \<and> stopSafe its)"

section \<open>The palindrome predicate\<close>

text \<open>
  C3. \<open>isPalindrome s\<close> is true exactly when \<open>s\<close> has at least three code units and
  reads the same in both directions: the code unit at every position equals the one at
  the mirrored position. In particular it is false for every \<open>s\<close> shorter than three.
\<close>

theorem isPalindrome_iff:
  "isPalindrome s \<longleftrightarrow>
     (3 \<le> length s \<and> (\<forall>i < length s. s ! i = s ! (length s - 1 - i)))"
proof -
  have "s = rev s \<longleftrightarrow> (\<forall>i < length s. s ! i = s ! (length s - 1 - i))"
    by (auto simp: list_eq_iff_nth_eq rev_nth)
  then show ?thesis
    by (auto simp: isPalindrome_def)
qed

theorem isPalindrome_iff_witness:
  "isPalindrome [0x5D0, 0x5D1, 0x5D0] \<and> \<not> isPalindrome [0x5D0, 0x5D0]"
  using isPalindrome_iff [of "[0x5D0, 0x5D1, 0x5D0]"] isPalindrome_iff [of "[0x5D0, 0x5D0]"]
  by (simp add: less_Suc_eq)

section \<open>The normalizer\<close>

lemma isHebrew_cases:
  assumes "isHebrew c"
  shows "c \<in> set baseLetters \<or> c \<in> set finalLetters"
proof -
  from assms have "1488 \<le> unat c" "unat c < 1515"
    by (simp_all add: isHebrew_def word_le_nat_alt)
  then have "unat c \<in> set (upt 1488 1515)"
    by (simp only: set_upt atLeastLessThan_iff)
  then have "unat c \<in> {1488, 1489, 1490, 1491, 1492, 1493, 1494, 1495, 1496, 1497, 1498,
      1499, 1500, 1501, 1502, 1503, 1504, 1505, 1506, 1507, 1508, 1509, 1510, 1511, 1512,
      1513, 1514}"
    by (simp add: upt_rec_numeral)
  then show ?thesis
    unfolding baseLetters_def finalLetters_def
    by (simp add: word_unat_eq_iff) blast
qed

lemma baseLetters_isHebrew: "c \<in> set baseLetters \<Longrightarrow> isHebrew c"
  unfolding baseLetters_def by (auto simp: isHebrew_def)

lemma baseLetters_sofitMap: "c \<in> set baseLetters \<Longrightarrow> sofitMap c = None"
  unfolding baseLetters_def by (auto simp: sofitMap_def)

lemma baseLetters_not_final: "c \<in> set baseLetters \<Longrightarrow> c \<notin> set finalLetters"
  unfolding baseLetters_def finalLetters_def by auto

lemma isHebrew_not_niqqud: "isHebrew c \<Longrightarrow> \<not> isNiqqud c"
  by (auto simp: isHebrew_def isNiqqud_def word_le_nat_alt)

lemma isHebrew_not_ws: "isHebrew c \<Longrightarrow> \<not> isWhiteSpace c"
  by (auto simp: isHebrew_def isWhiteSpace_def word_le_nat_alt)

lemma isHebrew_not_sep: "isHebrew c \<Longrightarrow> \<not> isRefSep c"
  by (auto simp: isHebrew_def isRefSep_def)

lemma isHebrew_not_paren: "isHebrew c \<Longrightarrow> \<not> isParenOpen c"
  by (auto simp: isHebrew_def isParenOpen_def)

lemma isHebrew_not_ascii: "isHebrew c \<Longrightarrow> \<not> c \<le> 0x7F"
  by (auto simp: isHebrew_def word_le_nat_alt)

lemma sofitMap_final: "sofitMap c = Some d \<Longrightarrow> c \<in> set finalLetters \<and> d \<in> set baseLetters"
  by (auto simp: sofitMap_def finalLetters_def baseLetters_def split: if_splits)

lemma sofitChar_base: "d \<in> set (sofitChar c) \<Longrightarrow> d \<in> set baseLetters"
proof (cases "sofitMap c")
  case None
  assume "d \<in> set (sofitChar c)"
  with None have "isHebrew c" "d = c"
    by (auto simp: sofitChar_def split: if_splits)
  moreover from None have "c \<notin> set finalLetters"
    by (auto simp: sofitMap_def finalLetters_def split: if_splits)
  ultimately show ?thesis
    using isHebrew_cases by blast
next
  case (Some e)
  assume "d \<in> set (sofitChar c)"
  with Some show ?thesis
    using sofitMap_final by (auto simp: sofitChar_def)
qed

lemma sofitChar_id: "c \<in> set baseLetters \<Longrightarrow> sofitChar c = [c]"
  by (simp add: sofitChar_def baseLetters_sofitMap baseLetters_isHebrew)

lemma sofitLoop_concat: "sofitLoop acc cs = acc @ concat (map sofitChar cs)"
  by (induction cs arbitrary: acc) (auto simp: sofitChar_def split: option.splits)

lemma normalizeHebrew_alt:
  "normalizeHebrew text = concat (map sofitChar (filter (\<lambda>c. \<not> isNiqqud c) (stripRefs text)))"
  by (simp add: normalizeHebrew_def sofitLoop_concat)

lemma normalizeHebrew_base: "c \<in> set (normalizeHebrew text) \<Longrightarrow> c \<in> set baseLetters"
  by (auto simp: normalizeHebrew_alt dest: sofitChar_base)

text \<open>
  C4. Every code unit of \<open>normalizeHebrew text\<close> is one of the 22 base letters: it is no
  combining mark, no final form, no white space, and no ASCII character (so no digit and
  no ASCII punctuation).
\<close>

theorem normalizeHebrew_only_base_letters:
  "c \<in> set (normalizeHebrew text) \<Longrightarrow>
     c \<in> set baseLetters \<and> \<not> isNiqqud c \<and> c \<notin> set finalLetters \<and> \<not> isWhiteSpace c
     \<and> \<not> c \<le> 0x7F"
  using normalizeHebrew_base [of c "text"]
  by (simp add: baseLetters_isHebrew baseLetters_not_final isHebrew_not_niqqud isHebrew_not_ws isHebrew_not_ascii)

theorem normalizeHebrew_only_base_letters_witness:
  "(0x5DB :: cu) \<in> set (normalizeHebrew [0x5DE, 0x5B6, 0x5DC, 0x5B6, 0x5DA, 0x2E])
   \<and> (0x5DB :: cu) \<in> set baseLetters \<and> \<not> isNiqqud 0x5DB \<and> (0x5DB :: cu) \<notin> set finalLetters
   \<and> \<not> isWhiteSpace 0x5DB \<and> \<not> (0x5DB :: cu) \<le> 0x7F"
proof -
  have h: "(0x5DB :: cu) \<in> set (normalizeHebrew [0x5DE, 0x5B6, 0x5DC, 0x5B6, 0x5DA, 0x2E])"
    by code_simp
  from normalizeHebrew_only_base_letters [OF h] h show ?thesis
    by simp
qed

subsection \<open>Idempotence\<close>

lemma backtrack_None: "(\<And>k. f k = None) \<Longrightarrow> backtrack f l n = None"
  by (induction n) auto

lemma backtrack_below: "n < l \<Longrightarrow> backtrack f l n = None"
  by (cases n) auto

lemma matchSeq_mandatory:
  "it \<in> set p \<Longrightarrow> 0 < lo it \<Longrightarrow> \<forall>c \<in> set s. \<not> cls it c \<Longrightarrow> matchSeq p s = None"
proof (induction p arbitrary: s)
  case Nil
  then show ?case by simp
next
  case (Cons a p)
  show ?case
  proof (cases "it = a")
    case True
    with Cons.prems have "takeWhile (cls a) s = []"
      by (cases s) auto
    with True Cons.prems show ?thesis
      by (simp add: backtrack_below split: option.splits)
  next
    case False
    with Cons.prems have "it \<in> set p" by simp
    have "matchSeq p (drop k s) = None" for k
    proof (rule Cons.IH [OF \<open>it \<in> set p\<close> \<open>0 < lo it\<close>])
      show "\<forall>c\<in>set (drop k s). \<not> cls it c"
        using Cons.prems(3) by (meson in_set_dropD)
    qed
    then show ?thesis
      by (simp add: backtrack_None Let_def)
  qed
qed

lemma replaceG_no_match:
  "it \<in> set p \<Longrightarrow> 0 < lo it \<Longrightarrow> \<forall>c \<in> set s. \<not> cls it c \<Longrightarrow> replaceG p r s = s"
proof (induction s)
  case Nil
  then show ?case by (simp add: matchSeq_mandatory)
next
  case (Cons c s)
  from Cons.prems have "matchSeq p (c # s) = None"
    by (rule matchSeq_mandatory)
  with Cons show ?case by simp
qed

lemma stripRefs_letters:
  assumes "\<forall>c \<in> set s. isHebrew c"
  shows "stripRefs s = s"
proof -
  have 1: "replaceG refPattern r s = s" for r
    by (rule replaceG_no_match [where it = "Item isRefSep 1 (Some 1)"])
      (use assms in \<open>auto simp: refPattern_def isHebrew_not_sep\<close>)
  have 2: "replaceG parenRefPattern r s = s" for r
    by (rule replaceG_no_match [where it = "Item isParenOpen 1 (Some 1)"])
      (use assms in \<open>auto simp: parenRefPattern_def isHebrew_not_paren\<close>)
  show ?thesis by (simp add: stripRefs_def 1 2)
qed

lemma normalizeHebrew_letters:
  assumes "\<forall>c \<in> set s. c \<in> set baseLetters"
  shows "normalizeHebrew s = s"
proof -
  from assms have h: "\<forall>c \<in> set s. isHebrew c"
    by (simp add: baseLetters_isHebrew)
  then have "filter (\<lambda>c. \<not> isNiqqud c) s = s"
    by (simp add: isHebrew_not_niqqud)
  moreover from assms have "concat (map sofitChar s) = s"
    by (induction s) (simp_all add: sofitChar_id)
  ultimately show ?thesis
    by (simp add: normalizeHebrew_alt stripRefs_letters [OF h])
qed

text \<open>
  C9. \<open>normalizeHebrew\<close> is idempotent: normalizing its own output gives that output
  again.
\<close>

theorem normalizeHebrew_idempotent: "normalizeHebrew (normalizeHebrew text) = normalizeHebrew text"
  by (rule normalizeHebrew_letters) (simp add: normalizeHebrew_base)

subsection \<open>White space around a span\<close>

lemma backtrack_cong_le: "(\<And>k. k \<le> n \<Longrightarrow> f k = g k) \<Longrightarrow> backtrack f l n = backtrack g l n"
proof (induction n)
  case 0
  then show ?case by simp
next
  case (Suc n)
  then have "backtrack f l n = backtrack g l n" "f (Suc n) = g (Suc n)"
    by simp_all
  then show ?case by (simp split: option.splits)
qed

lemma backtrack_skip: "f (Suc m) = None \<Longrightarrow> backtrack f l (Suc m) = backtrack f l m"
  by (simp add: backtrack_below)

lemma backtrack_extend:
  "n \<le> n' \<Longrightarrow> (\<And>k. n < k \<Longrightarrow> k \<le> n' \<Longrightarrow> f k = None) \<Longrightarrow> backtrack f l n' = backtrack f l n"
proof (induction n')
  case 0
  then show ?case by simp
next
  case (Suc n')
  show ?case
  proof (cases "n = Suc n'")
    case True
    then show ?thesis by simp
  next
    case False
    with Suc.prems have le: "n \<le> n'" by simp
    with Suc.prems have "f (Suc n') = None" by simp
    then have "backtrack f l (Suc n') = backtrack f l n'"
      by (rule backtrack_skip)
    also have "\<dots> = backtrack f l n"
      using le Suc.prems(2) by (intro Suc.IH) auto
    finally show ?thesis .
  qed
qed

lemma backtrack_Some: "backtrack f l n = Some r \<Longrightarrow> \<exists>k. l \<le> k \<and> k \<le> n \<and> f k = Some r"
proof (induction n)
  case 0
  then show ?case by (auto split: if_splits)
next
  case (Suc n)
  then show ?case
    by (fastforce split: if_splits option.splits simp: not_less)
qed

lemma takeWhile_length_le: "length (takeWhile P s) \<le> length s"
  by (induction s) auto

lemma matchSeq_le: "matchSeq p s = Some k \<Longrightarrow> k \<le> length s"
proof (induction p arbitrary: s k)
  case Nil
  then show ?case by simp
next
  case (Cons it its)
  let ?a = "length (takeWhile (cls it) s)"
  let ?n = "case hi it of None \<Rightarrow> ?a | Some h \<Rightarrow> min h ?a"
  from Cons.prems obtain j where j: "j \<le> ?n"
    and f: "map_option (\<lambda>r. j + r) (matchSeq its (drop j s)) = Some k"
    by (auto simp: Let_def dest!: backtrack_Some)
  then obtain r where r: "matchSeq its (drop j s) = Some r" "k = j + r"
    by auto
  from r(1) have "r \<le> length (drop j s)" by (rule Cons.IH)
  moreover have "?n \<le> length s"
    using takeWhile_length_le [of "cls it" s] by (auto split: option.splits)
  ultimately show ?case using j r(2) by simp
qed

lemma matchSeq_append_ws:
  assumes w: "\<forall>c \<in> set w. isWhiteSpace c"
  shows "trailSafe p \<Longrightarrow> matchSeq p (s @ w) = matchSeq p s"
proof (induction p arbitrary: s)
  case Nil
  then show ?case by simp
next
  case (Cons it its)
  let ?P = "cls it"
  let ?a = "length (takeWhile ?P s)"
  let ?a' = "length (takeWhile ?P (s @ w))"
  let ?bound = "\<lambda>x. case hi it of None \<Rightarrow> x | Some h \<Rightarrow> min h x"
  let ?f = "\<lambda>k. map_option (\<lambda>r. k + r) (matchSeq its (drop k s))"
  let ?f' = "\<lambda>k. map_option (\<lambda>r. k + r) (matchSeq its (drop k (s @ w)))"
  from Cons.prems have safe: "trailSafe its"
    and alt: "wsFree ?P \<or> (\<exists>it' \<in> set its. 0 < lo it' \<and> wsFree (cls it'))"
    by simp_all
  have a_le: "?a \<le> length s" by (rule takeWhile_length_le)
  have a_a': "?a \<le> ?a'"
    using a_le by (simp add: takeWhile_append)
  then have n_n': "?bound ?a \<le> ?bound ?a'"
    by (auto split: option.splits)
  have n_le: "?bound ?a \<le> length s"
    using a_le by (auto split: option.splits)
  have low: "?f' k = ?f k" if "k \<le> ?bound ?a" for k
  proof -
    from that n_le have "drop k (s @ w) = drop k s @ w" by simp
    then show ?thesis by (simp add: Cons.IH [OF safe])
  qed
  have high: "?f' k = None" if "?bound ?a < k" "k \<le> ?bound ?a'" for k
  proof -
    from that have lt: "?a < ?a'" and na: "?a < k"
      by (auto split: option.splits)
    from lt have all: "\<forall>x \<in> set s. ?P x"
      by (auto simp: takeWhile_append split: if_splits)
    then have tw: "takeWhile ?P s = s" by simp
    with lt all have "takeWhile ?P w \<noteq> []"
      by (auto simp: takeWhile_append)
    then obtain c where "c \<in> set w" "?P c"
      by (cases w) (auto split: if_splits)
    with w have "\<not> wsFree ?P" by (auto simp: wsFree_def)
    with alt obtain it' where it': "it' \<in> set its" "0 < lo it'" "wsFree (cls it')"
      by blast
    have "?a = length s" by (simp only: tw)
    with na have "drop k (s @ w) = drop (k - length s) w" by simp
    moreover have "\<forall>c \<in> set (drop (k - length s) w). \<not> cls it' c"
      using w it'(3) by (auto simp: wsFree_def dest: in_set_dropD)
    ultimately have "matchSeq its (drop k (s @ w)) = None"
      using matchSeq_mandatory [OF it'(1,2)] by simp
    then show ?thesis by simp
  qed
  have "backtrack ?f' (lo it) (?bound ?a') = backtrack ?f' (lo it) (?bound ?a)"
    using n_n' high by (rule backtrack_extend)
  also have "\<dots> = backtrack ?f (lo it) (?bound ?a)"
    using low by (rule backtrack_cong_le)
  finally show ?case
    by (simp add: Let_def)
qed

lemma replaceG_append_ws:
  assumes w: "\<forall>c \<in> set w. isWhiteSpace c"
    and safe: "trailSafe p"
    and it: "it \<in> set p" "0 < lo it" "wsFree (cls it)"
  shows "replaceG p r (s @ w) = replaceG p r s @ w"
proof (induction "length s" arbitrary: s rule: less_induct)
  case less
  have nows: "\<forall>c \<in> set w. \<not> cls it c"
    using w it(3) by (auto simp: wsFree_def)
  show ?case
  proof (cases s)
    case Nil
    have "replaceG p r w = w"
      using it(1,2) nows by (rule replaceG_no_match)
    moreover have "matchSeq p [] = None"
      using it(1,2) by (rule matchSeq_mandatory) simp
    ultimately show ?thesis using Nil by simp
  next
    case (Cons c t)
    have m: "matchSeq p (c # t @ w) = matchSeq p (c # t)"
      using matchSeq_append_ws [OF w safe, of "c # t"] by simp
    show ?thesis
    proof (cases "matchSeq p (c # t)")
      case None
      with m Cons less.hyps [of t] show ?thesis by simp
    next
      case (Some k)
      show ?thesis
      proof (cases k)
        case 0
        with Some m Cons less.hyps [of t] show ?thesis by simp
      next
        case (Suc k')
        from Some have "k \<le> length (c # t)" by (rule matchSeq_le)
        with Suc have k': "k' \<le> length t" by simp
        then have "drop k' (t @ w) = drop k' t @ w" by simp
        moreover have "replaceG p r (drop k' t @ w) = replaceG p r (drop k' t) @ w"
          using Cons by (intro less.hyps) simp
        ultimately show ?thesis
          using Some Suc m Cons by simp
      qed
    qed
  qed
qed

lemma wsFree_classes:
  "wsFree isHebrew" "wsFree isRefOpen" "wsFree isRefClose" "wsFree isRefSep"
  "wsFree isParenOpen" "wsFree isParenClose"
  by (auto simp: wsFree_def isWhiteSpace_def isHebrew_def isRefOpen_def isRefClose_def
      isRefSep_def isParenOpen_def isParenClose_def word_le_nat_alt)

lemma trailSafe_refPattern: "trailSafe refPattern"
  by (simp add: refPattern_def wsFree_classes)

lemma trailSafe_parenRefPattern: "trailSafe parenRefPattern"
  by (simp add: parenRefPattern_def wsFree_classes)

lemma stripRefs_append_ws:
  assumes "\<forall>c \<in> set w. isWhiteSpace c"
  shows "stripRefs (s @ w) = stripRefs s @ w"
proof -
  have 1: "replaceG refPattern r (s @ w) = replaceG refPattern r s @ w" for r s
    by (rule replaceG_append_ws [OF assms trailSafe_refPattern, where it = "Item isHebrew 1 (Some 3)"])
      (simp_all add: refPattern_def wsFree_classes)
  have 2: "replaceG parenRefPattern r (s @ w) = replaceG parenRefPattern r s @ w" for r s
    by (rule replaceG_append_ws [OF assms trailSafe_parenRefPattern, where it = "Item isHebrew 1 (Some 3)"])
      (simp_all add: parenRefPattern_def wsFree_classes)
  show ?thesis by (simp add: stripRefs_def 1 2)
qed

lemma sofitChar_ws: "isWhiteSpace c \<Longrightarrow> sofitChar c = []"
  by (auto simp: sofitChar_def sofitMap_def isWhiteSpace_def isHebrew_def word_le_nat_alt)

lemma normalizeHebrew_append_ws:
  assumes "\<forall>c \<in> set w. isWhiteSpace c"
  shows "normalizeHebrew (s @ w) = normalizeHebrew s"
proof -
  from assms have "concat (map sofitChar (filter (\<lambda>c. \<not> isNiqqud c) w)) = []"
    by (induction w) (simp_all add: sofitChar_ws)
  then show ?thesis
    by (simp add: normalizeHebrew_alt stripRefs_append_ws [OF assms])
qed

lemma matchSeq_head_mandatory:
  "\<not> cls it c \<Longrightarrow> 0 < lo it \<Longrightarrow> matchSeq (it # its) (c # s) = None"
  by (simp add: backtrack_below split: option.splits)

lemma matchSeq_head_optional:
  "\<not> cls it c \<Longrightarrow> lo it = 0 \<Longrightarrow> matchSeq (it # its) (c # s) = matchSeq its (c # s)"
  by (cases "matchSeq its (c # s)") (simp_all split: option.splits)

lemma matchSeq_ws_head:
  assumes "isWhiteSpace c"
  shows "matchSeq refPattern (c # s) = None" "matchSeq parenRefPattern (c # s) = None"
proof -
  from assms have n: "\<not> isRefOpen c" "\<not> isHebrew c" "\<not> isParenOpen c"
    using wsFree_classes by (auto simp: wsFree_def)
  show "matchSeq refPattern (c # s) = None"
    unfolding refPattern_def
    by (subst matchSeq_head_optional) (simp_all add: n matchSeq_head_mandatory)
  show "matchSeq parenRefPattern (c # s) = None"
    unfolding parenRefPattern_def
    by (rule matchSeq_head_mandatory) (simp_all add: n)
qed

lemma normalizeHebrew_ws_Cons:
  assumes "isWhiteSpace c"
  shows "normalizeHebrew (c # s) = normalizeHebrew s"
proof -
  have "stripRefs (c # s) = c # stripRefs s"
    by (simp add: stripRefs_def matchSeq_ws_head [OF assms])
  then show ?thesis
    by (simp add: normalizeHebrew_alt sofitChar_ws [OF assms])
qed

lemma normalizeHebrew_ws_prefix:
  "\<forall>c \<in> set w. isWhiteSpace c \<Longrightarrow> normalizeHebrew (w @ s) = normalizeHebrew s"
  by (induction w) (simp_all add: normalizeHebrew_ws_Cons)

lemma normalizeHebrew_trim: "normalizeHebrew (trim s) = normalizeHebrew s"
proof -
  let ?t = "dropWhile isWhiteSpace s"
  let ?w = "rev (takeWhile isWhiteSpace (rev ?t))"
  have "trim s @ ?w = rev (takeWhile isWhiteSpace (rev ?t) @ dropWhile isWhiteSpace (rev ?t))"
    by (simp only: trim_def rev_append)
  also have "\<dots> = rev (rev ?t)"
    by (simp only: takeWhile_dropWhile_id)
  finally have t: "?t = trim s @ ?w"
    by simp
  have "\<forall>c \<in> set ?w. isWhiteSpace c"
    by (auto dest: set_takeWhileD)
  then have "normalizeHebrew (trim s @ ?w) = normalizeHebrew (trim s)"
    by (rule normalizeHebrew_append_ws)
  with t have 1: "normalizeHebrew ?t = normalizeHebrew (trim s)"
    by simp
  have "s = takeWhile isWhiteSpace s @ ?t"
    by simp
  moreover have "normalizeHebrew (takeWhile isWhiteSpace s @ ?t) = normalizeHebrew ?t"
    by (rule normalizeHebrew_ws_prefix) (auto dest: set_takeWhileD)
  ultimately have "normalizeHebrew s = normalizeHebrew ?t"
    by simp
  with 1 show ?thesis by simp
qed

section \<open>The scan\<close>

declare innerLoop.simps [simp del] outerLoop.simps [simp del]

lemma innerLoop_unfold:
  "innerLoop text mn mx i j results =
     (if j \<le> length text \<and> withinBounds text mx i j
      then innerLoop text mn mx i (Suc j)
             (if isHit text mn i j then results @ [spanMatch text i j] else results)
      else results)"
  by (subst innerLoop.simps)
    (auto simp: Let_def withinBounds_def isHit_def spanMatch_def)

lemma innerLoop_closed:
  "innerLoop text mn mx i j results =
     results @ map (spanMatch text i)
       (filter (isHit text mn i) (takeWhile (withinBounds text mx i) [j ..< Suc (length text)]))"
proof (induction "Suc (length text) - j" arbitrary: j results)
  case 0
  then have "\<not> j \<le> length text" by simp
  then show ?case
    by (subst innerLoop_unfold) simp
next
  case (Suc d)
  then have j: "j \<le> length text" and d: "d = Suc (length text) - Suc j"
    by simp_all
  from j have upt: "[j ..< Suc (length text)] = j # [Suc j ..< Suc (length text)]"
    by (simp add: upt_conv_Cons)
  show ?case
    by (subst innerLoop_unfold) (simp add: j Suc.hyps(1) [OF d] upt del: upt_Suc)
qed

lemma outerLoop_unfold:
  "outerLoop text mn mx i results =
     (if i < length text
      then outerLoop text mn mx (Suc i)
             (if isStart (text ! i) then innerLoop text mn mx i (Suc i) results else results)
      else results)"
  by (subst outerLoop.simps) simp

lemma outerLoop_closed:
  "outerLoop text mn mx i results =
     results @ concat (map (\<lambda>i'. if isStart (text ! i') then innerLoop text mn mx i' (Suc i') [] else [])
       [i ..< length text])"
proof (induction "length text - i" arbitrary: i results)
  case 0
  then show ?case
    by (subst outerLoop_unfold) simp
next
  case (Suc d)
  then have i: "i < length text" and d: "d = length text - Suc i"
    by simp_all
  from i have upt: "[i ..< length text] = i # [Suc i ..< length text]"
    by (simp add: upt_conv_Cons)
  have app: "innerLoop text mn mx i (Suc i) results = results @ innerLoop text mn mx i (Suc i) []"
    by (simp add: innerLoop_closed del: upt_Suc)
  show ?case
    by (subst outerLoop_unfold) (simp add: i Suc.hyps(1) [OF d] upt app)
qed

lemma set_takeWhile_upt:
  "set (takeWhile P [a ..< b]) = {j. a \<le> j \<and> j < b \<and> (\<forall>k. a \<le> k \<and> k \<le> j \<longrightarrow> P k)}"
proof (induction b)
  case 0
  then show ?case by simp
next
  case (Suc b)
  show ?case
  proof (cases "a \<le> b")
    case False
    then show ?thesis by auto
  next
    case True
    then have "[a ..< Suc b] = [a ..< b] @ [b]" by simp
    then have "set (takeWhile P [a ..< Suc b]) =
        (if \<forall>x \<in> set [a ..< b]. P x then set [a ..< b] \<union> set (takeWhile P [b])
         else set (takeWhile P [a ..< b]))"
      by (simp add: takeWhile_append del: upt_Suc)
    also have "\<dots> = {j. a \<le> j \<and> j < Suc b \<and> (\<forall>k. a \<le> k \<and> k \<le> j \<longrightarrow> P k)}"
      (is "?L = ?R")
    proof (cases "\<forall>x \<in> set [a ..< b]. P x")
      case all: True
      show ?thesis
      proof (cases "P b")
        case True
        with all have "\<And>k. a \<le> k \<Longrightarrow> k \<le> b \<Longrightarrow> P k"
          by (metis atLeastLessThan_iff le_neq_implies_less set_upt)
        with all True \<open>a \<le> b\<close> show ?thesis by (auto simp: less_Suc_eq)
      next
        case False
        with all \<open>a \<le> b\<close> show ?thesis
          by (auto simp: less_Suc_eq)
      qed
    next
      case False
      then obtain x where x: "a \<le> x" "x < b" "\<not> P x" by auto
      from False have "?L = set (takeWhile P [a ..< b])"
        by (simp only: if_False)
      also have "\<dots> = {j. a \<le> j \<and> j < b \<and> (\<forall>k. a \<le> k \<and> k \<le> j \<longrightarrow> P k)}"
        by (rule Suc.IH)
      also have "\<dots> = ?R"
        using x by (auto simp: less_Suc_eq)
      finally show ?thesis .
    qed
    finally show ?thesis .
  qed
qed

lemma scanResults_iff:
  "m \<in> set (scanResults text mn mx) \<longleftrightarrow>
     (\<exists>i j. i < j \<and> j \<le> length text \<and> isStart (text ! i)
        \<and> (\<forall>k. i < k \<and> k \<le> j \<longrightarrow> withinBounds text mx i k)
        \<and> isHit text mn i j \<and> m = spanMatch text i j)"
  unfolding scanResults_def outerLoop_closed innerLoop_closed
  by (auto simp: set_takeWhile_upt less_Suc_eq_le Suc_le_eq simp del: upt_Suc)

section \<open>Deduplication and ranking\<close>

lemma findPalindromes_resolve: "findPalindromes text mn mx = resolve (scanResults text mn mx)"
  by (simp add: findPalindromes_def)

lemma find_append:
  "List.find P (xs @ ys) = (case List.find P xs of None \<Rightarrow> List.find P ys | Some a \<Rightarrow> Some a)"
  by (induction xs) auto

lemma find_SomeD: "List.find P xs = Some x \<Longrightarrow> P x \<and> x \<in> set xs"
  by (auto simp: find_Some_iff)

lemma firstShortest_Nil: "firstShortest [] = None"
  by (simp add: firstShortest_def)

lemma firstShortest_exists:
  assumes "g \<noteq> []"
  shows "\<exists>e. firstShortest g = Some e"
proof -
  let ?f = "\<lambda>m. length (original m)"
  let ?a = "arg_min_list ?f g"
  from assms have "?a \<in> set g"
    by (rule arg_min_list_in)
  moreover from assms have "?f ?a = Min (?f ` set g)"
    by (rule f_arg_min_list_f)
  then have "\<forall>y \<in> set g. ?f ?a \<le> ?f y"
    by simp
  ultimately have "firstShortest g \<noteq> None"
    unfolding firstShortest_def find_None_iff by blast
  then show ?thesis by auto
qed

lemma firstShortest_SomeD:
  "firstShortest g = Some e \<Longrightarrow>
     e \<in> set g \<and> (\<forall>y \<in> set g. length (original e) \<le> length (original y))"
  unfolding firstShortest_def by (drule find_SomeD) simp

lemma firstShortest_snoc:
  "firstShortest (g @ [x]) =
     (case firstShortest g of
        None \<Rightarrow> Some x
      | Some e \<Rightarrow> if length (original x) < length (original e) then Some x else Some e)"
proof (cases "g = []")
  case True
  then show ?thesis by (simp add: firstShortest_def)
next
  case False
  then obtain e where e: "firstShortest g = Some e"
    using firstShortest_exists by blast
  then have eg: "e \<in> set g" and emin: "\<forall>y \<in> set g. length (original e) \<le> length (original y)"
    using firstShortest_SomeD by blast+
  let ?P = "\<lambda>x. \<forall>y \<in> set g. length (original x) \<le> length (original y)"
  let ?P' = "\<lambda>z. \<forall>y \<in> set (g @ [x]). length (original z) \<le> length (original y)"
  show ?thesis
  proof (cases "length (original x) < length (original e)")
    case True
    with emin have "\<forall>y \<in> set g. \<not> ?P' y"
      by fastforce
    then have "List.find ?P' g = None"
      by (simp only: find_None_iff) blast
    moreover from True emin have "?P' x"
      by fastforce
    ultimately have "firstShortest (g @ [x]) = Some x"
      unfolding firstShortest_def find_append by simp
    with e True show ?thesis by simp
  next
    case False
    have "List.find ?P' g = List.find ?P g"
    proof (rule find_cong [OF refl])
      fix z assume "z \<in> set g"
      show "?P' z = ?P z"
      proof
        assume "?P' z" then show "?P z" by simp
      next
        assume "?P z"
        with eg have "length (original z) \<le> length (original e)" by blast
        with False \<open>?P z\<close> show "?P' z" by auto
      qed
    qed
    with e have "firstShortest (g @ [x]) = Some e"
      unfolding firstShortest_def find_append by simp
    with e False show ?thesis by simp
  qed
qed

lemma map_of_mapSet: "map_of (mapSet m k v) = (map_of m)(k \<mapsto> v)"
  by (induction m k v rule: mapSet.induct) auto

lemma keys_mapSet: "set (map fst (mapSet m k v)) = insert k (set (map fst m))"
  by (induction m k v rule: mapSet.induct) auto

lemma distinct_mapSet: "distinct (map fst m) \<Longrightarrow> distinct (map fst (mapSet m k v))"
proof (induction m k v rule: mapSet.induct)
  case (1 key v)
  then show ?case by simp
next
  case (2 k w m key v)
  then show ?case
    using keys_mapSet [of m key v] by auto
qed

lemma distinct_dedupStep: "distinct (map fst m) \<Longrightarrow> distinct (map fst (dedupStep m x))"
  by (simp add: dedupStep_def Let_def distinct_mapSet split: option.splits)

lemma map_of_dedupStep:
  "map_of (dedupStep m x) =
     (case map_of m (normalized x) of
        None \<Rightarrow> (map_of m)(normalized x \<mapsto> x)
      | Some e \<Rightarrow>
          if length (original x) < length (original e) then (map_of m)(normalized x \<mapsto> x)
          else map_of m)"
  by (simp add: dedupStep_def Let_def map_of_mapSet split: option.splits)

lemma groupOf_snoc:
  "groupOf (xs @ [x]) k = (if normalized x = k then groupOf xs k @ [x] else groupOf xs k)"
  by (simp add: groupOf_def)

lemma dedup_invariant:
  "distinct (map fst (foldl dedupStep [] xs))
   \<and> (\<forall>k. map_of (foldl dedupStep [] xs) k = firstShortest (groupOf xs k))"
proof (induction xs rule: rev_induct)
  case Nil
  then show ?case by (simp add: groupOf_def firstShortest_Nil)
next
  case (snoc x xs)
  let ?um = "foldl dedupStep [] xs"
  from snoc have d: "distinct (map fst ?um)"
    and m: "\<And>k. map_of ?um k = firstShortest (groupOf xs k)"
    by simp_all
  have "map_of (dedupStep ?um x) k = firstShortest (groupOf (xs @ [x]) k)" for k
    by (simp add: map_of_dedupStep groupOf_snoc firstShortest_snoc m split: option.splits)
  with d show ?case
    by (simp add: distinct_dedupStep)
qed

lemma groupOf_sort:
  assumes "\<forall>x \<in> set raw. length_m x = length (normalized x)"
  shows "groupOf (sortByLengthDesc raw) k = groupOf raw k"
proof -
  let ?f = "\<lambda>m. - int (length_m m)"
  let ?v = "- int (length k)"
  have "groupOf (sortByLengthDesc raw) k =
      filter (\<lambda>x. normalized x = k) (filter (\<lambda>y. ?f y = ?v) (sort_key ?f raw))"
    using assms unfolding groupOf_def sortByLengthDesc_def filter_filter
    by (intro filter_cong refl) auto
  also have "\<dots> = filter (\<lambda>x. normalized x = k) (filter (\<lambda>y. ?f y = ?v) raw)"
    by (simp only: sort_key_stable)
  also have "\<dots> = groupOf raw k"
    using assms unfolding groupOf_def filter_filter
    by (intro filter_cong refl) auto
  finally show ?thesis .
qed

lemma resolve_iff:
  assumes "\<forall>x \<in> set raw. length_m x = length (normalized x)"
  shows "r \<in> set (resolve raw) \<longleftrightarrow> firstShortest (groupOf raw (normalized r)) = Some r"
proof -
  let ?um = "foldl dedupStep [] (sortByLengthDesc raw)"
  have d: "distinct (map fst ?um)"
    and m: "\<And>k. map_of ?um k = firstShortest (groupOf raw k)"
    using dedup_invariant [of "sortByLengthDesc raw"] groupOf_sort [OF assms] by simp_all
  have key: "k = normalized v" if "map_of ?um k = Some v" for k v
  proof -
    from that have "v \<in> set (groupOf raw k)"
      using firstShortest_SomeD m by metis
    then show ?thesis by (simp add: groupOf_def)
  qed
  have "r \<in> set (resolve raw) \<longleftrightarrow> (\<exists>k. (k, r) \<in> set ?um)"
    by (force simp: resolve_def sortByLengthDesc_def)
  also have "\<dots> \<longleftrightarrow> (\<exists>k. map_of ?um k = Some r)"
    using d by simp
  also have "\<dots> \<longleftrightarrow> map_of ?um (normalized r) = Some r"
    using key by blast
  finally show ?thesis
    by (simp add: m)
qed

lemma resolve_distinct:
  assumes "\<forall>x \<in> set raw. length_m x = length (normalized x)"
  shows "distinct (map normalized (resolve raw))"
proof -
  let ?um = "foldl dedupStep [] (sortByLengthDesc raw)"
  have d: "distinct (map fst ?um)"
    and m: "\<And>k. map_of ?um k = firstShortest (groupOf raw k)"
    using dedup_invariant [of "sortByLengthDesc raw"] groupOf_sort [OF assms] by simp_all
  have "normalized (snd p) = fst p" if "p \<in> set ?um" for p
  proof -
    from that d have "map_of ?um (fst p) = Some (snd p)" by simp
    then have "snd p \<in> set (groupOf raw (fst p))"
      using firstShortest_SomeD m by metis
    then show ?thesis by (simp add: groupOf_def)
  qed
  then have "map (normalized \<circ> snd) ?um = map fst ?um"
    by (intro map_cong refl) simp
  moreover define ys where "ys = map snd ?um"
  ultimately have "distinct (map normalized ys)"
    using d by (simp only: map_map)
  then have "distinct ys \<and> inj_on normalized (set ys)"
    by (simp only: distinct_map)
  then have "distinct (map normalized (sort_key (\<lambda>m. - int (length_m m)) ys))"
    by (simp only: distinct_map distinct_sort set_sort)
  then show ?thesis
    by (simp only: resolve_def Let_def sortByLengthDesc_def ys_def)
qed

lemma resolve_sorted: "sorted (map (\<lambda>m. - int (length_m m)) (resolve raw))"
  by (simp add: resolve_def sortByLengthDesc_def)

section \<open>The returned matches\<close>

lemma scanResults_length:
  "x \<in> set (scanResults text mn mx) \<Longrightarrow> length_m x = length (normalized x)"
  by (auto simp: scanResults_iff spanMatch_def)

lemma scanResults_bounds:
  assumes "x \<in> set (scanResults text mn mx)"
  shows "mn \<le> int (length_m x) \<and> int (length_m x) \<le> mx \<and> isPalindrome (normalized x)"
proof -
  from assms obtain i j where ij: "i < j" "x = spanMatch text i j" "isHit text mn i j"
    and b: "\<forall>k. i < k \<and> k \<le> j \<longrightarrow> withinBounds text mx i k"
    unfolding scanResults_iff by blast
  from b ij(1) have "withinBounds text mx i j" by simp
  with ij show ?thesis
    by (simp add: spanMatch_def isHit_def withinBounds_def)
qed

lemma findPalindromes_iff:
  "r \<in> set (findPalindromes text mn mx) \<longleftrightarrow>
     firstShortest (groupOf (scanResults text mn mx) (normalized r)) = Some r"
  unfolding findPalindromes_resolve
  by (rule resolve_iff) (simp add: scanResults_length)

lemma findPalindromes_subset:
  "r \<in> set (findPalindromes text mn mx) \<Longrightarrow> r \<in> set (scanResults text mn mx)"
  unfolding findPalindromes_iff
  by (drule firstShortest_SomeD) (simp add: groupOf_def)

text \<open>
  C5. Every match returned by \<open>findPalindromes\<close> has a length between \<open>minLength\<close> and
  \<open>maxLength\<close>, its length is the length of its canonical form, and its canonical form
  satisfies \<open>isPalindrome\<close>.
\<close>

theorem findPalindromes_match_invariant:
  "m \<in> set (findPalindromes text minLength maxLength) \<Longrightarrow>
     minLength \<le> int (length_m m) \<and> int (length_m m) \<le> maxLength
     \<and> length_m m = length (normalized m) \<and> isPalindrome (normalized m)"
proof -
  assume "m \<in> set (findPalindromes text minLength maxLength)"
  then have "m \<in> set (scanResults text minLength maxLength)"
    by (rule findPalindromes_subset)
  then show ?thesis
    using scanResults_bounds scanResults_length by blast
qed

theorem findPalindromes_match_invariant_witness:
  "\<lparr>normalized = [0x5D0, 0x5D1, 0x5D0], original = [0x5D0, 0x5D1, 0x5D0], length_m = 3\<rparr>
     \<in> set (findPalindromes [0x2E, 0x5D0, 0x5D1, 0x5D0, 0x2E, 0x5D0] 3 50)
   \<and> isPalindrome [0x5D0, 0x5D1, 0x5D0]"
proof -
  have h: "\<lparr>normalized = [0x5D0, 0x5D1, 0x5D0], original = [0x5D0, 0x5D1, 0x5D0], length_m = 3\<rparr>
     \<in> set (findPalindromes [0x2E, 0x5D0, 0x5D1, 0x5D0, 0x2E, 0x5D0] 3 50)"
    by code_simp
  from findPalindromes_match_invariant [OF h] h show ?thesis
    by simp
qed

lemma findPalindromes_covers:
  assumes "x \<in> set (scanResults text mn mx)"
  shows "\<exists>r \<in> set (findPalindromes text mn mx). normalized r = normalized x"
proof -
  from assms have "groupOf (scanResults text mn mx) (normalized x) \<noteq> []"
    by (auto simp: groupOf_def filter_empty_conv)
  then obtain r where
    r: "firstShortest (groupOf (scanResults text mn mx) (normalized x)) = Some r"
    using firstShortest_exists by blast
  then have "normalized r = normalized x"
    by (auto dest!: firstShortest_SomeD simp: groupOf_def)
  with r show ?thesis
    by (auto simp: findPalindromes_iff)
qed

text \<open>
  C6. No two returned matches have the same canonical form; every canonical form among
  the raw matches has a returned match; and every returned match is the representative of
  its group of raw matches: the one with the shortest original text, and the first one
  met among those of that length.
\<close>

theorem findPalindromes_one_per_canonical:
  "distinct (map normalized (findPalindromes text minLength maxLength))
   \<and> (\<forall>x \<in> set (scanResults text minLength maxLength).
        \<exists>r \<in> set (findPalindromes text minLength maxLength). normalized r = normalized x)
   \<and> (\<forall>r \<in> set (findPalindromes text minLength maxLength).
        firstShortest (groupOf (scanResults text minLength maxLength) (normalized r)) = Some r)"
proof (intro conjI ballI)
  show "distinct (map normalized (findPalindromes text minLength maxLength))"
    unfolding findPalindromes_resolve
    by (rule resolve_distinct) (simp add: scanResults_length)
next
  fix x assume "x \<in> set (scanResults text minLength maxLength)"
  then show "\<exists>r \<in> set (findPalindromes text minLength maxLength). normalized r = normalized x"
    by (rule findPalindromes_covers)
next
  fix r assume "r \<in> set (findPalindromes text minLength maxLength)"
  then show "firstShortest (groupOf (scanResults text minLength maxLength) (normalized r)) = Some r"
    by (simp add: findPalindromes_iff)
qed

theorem findPalindromes_one_per_canonical_witness:
  "\<lparr>normalized = [0x5D0, 0x5D1, 0x5D0], original = [0x5D0, 0x2E, 0x5D1, 0x5D0], length_m = 3\<rparr>
     \<in> set (scanResults [0x5D0, 0x2E, 0x5D1, 0x5D0, 0x20, 0x5D0, 0x5D1, 0x5D0] 3 3)
   \<and> \<lparr>normalized = [0x5D0, 0x5D1, 0x5D0], original = [0x5D0, 0x5D1, 0x5D0], length_m = 3\<rparr>
     \<in> set (findPalindromes [0x5D0, 0x2E, 0x5D1, 0x5D0, 0x20, 0x5D0, 0x5D1, 0x5D0] 3 3)
   \<and> firstShortest (groupOf (scanResults [0x5D0, 0x2E, 0x5D1, 0x5D0, 0x20, 0x5D0, 0x5D1, 0x5D0] 3 3)
        [0x5D0, 0x5D1, 0x5D0])
      = Some \<lparr>normalized = [0x5D0, 0x5D1, 0x5D0], original = [0x5D0, 0x5D1, 0x5D0], length_m = 3\<rparr>"
proof -
  let ?T = "[0x5D0, 0x2E, 0x5D1, 0x5D0, 0x20, 0x5D0, 0x5D1, 0x5D0] :: jsstring"
  let ?r = "\<lparr>normalized = [0x5D0, 0x5D1, 0x5D0], original = [0x5D0, 0x5D1, 0x5D0], length_m = 3\<rparr>"
  have h: "?r \<in> set (findPalindromes ?T 3 3)"
    by code_simp
  have g: "\<lparr>normalized = [0x5D0, 0x5D1, 0x5D0], original = [0x5D0, 0x2E, 0x5D1, 0x5D0], length_m = 3\<rparr>
     \<in> set (scanResults ?T 3 3)"
    by code_simp
  from findPalindromes_one_per_canonical [of ?T 3 3] h
  have "firstShortest (groupOf (scanResults ?T 3 3) (normalized ?r)) = Some ?r"
    by blast
  with h g show ?thesis by simp
qed

text \<open>
  C7. The returned sequence is ordered by non-increasing length: an entry never has a
  smaller length than an entry after it.
\<close>

theorem findPalindromes_sorted:
  "i < j \<Longrightarrow> j < length (findPalindromes text minLength maxLength) \<Longrightarrow>
     length_m (findPalindromes text minLength maxLength ! j)
       \<le> length_m (findPalindromes text minLength maxLength ! i)"
  using resolve_sorted [of "scanResults text minLength maxLength"]
  unfolding findPalindromes_resolve
  by (auto simp: sorted_iff_nth_mono_less)

theorem findPalindromes_sorted_witness:
  "(0::nat) < 1 \<and> 1 < length (findPalindromes [0x5D0, 0x5D1, 0x5D0, 0x20, 0x5D1, 0x5D0] 3 50)
   \<and> length_m (findPalindromes [0x5D0, 0x5D1, 0x5D0, 0x20, 0x5D1, 0x5D0] 3 50 ! 1)
       \<le> length_m (findPalindromes [0x5D0, 0x5D1, 0x5D0, 0x20, 0x5D1, 0x5D0] 3 50 ! 0)"
proof -
  have h: "1 < length (findPalindromes [0x5D0, 0x5D1, 0x5D0, 0x20, 0x5D1, 0x5D0] 3 50)"
    by code_simp
  from findPalindromes_sorted [OF zero_less_one h] h show ?thesis
    by simp
qed

lemma isHit_floor: "mn \<le> 3 \<Longrightarrow> isHit text mn i j = isHit text 3 i j"
  by (auto simp: isHit_def isPalindrome_def)

lemma scanResults_floor: "mn \<le> 3 \<Longrightarrow> scanResults text mn mx = scanResults text 3 mx"
proof -
  assume "mn \<le> 3"
  then have "isHit text mn i = isHit text 3 i" for i
    by (intro ext) (rule isHit_floor)
  then show ?thesis
    unfolding scanResults_def outerLoop_closed innerLoop_closed by (simp only:)
qed

lemma scanResults_empty:
  assumes "mx < mn \<or> mx \<le> 0"
  shows "scanResults text mn mx = []"
proof -
  have "x \<notin> set (scanResults text mn mx)" for x
  proof
    assume "x \<in> set (scanResults text mn mx)"
    then have "mn \<le> int (length_m x)" "int (length_m x) \<le> mx" "isPalindrome (normalized x)"
      "length_m x = length (normalized x)"
      using scanResults_bounds scanResults_length by blast+
    with assms show False
      by (auto simp: isPalindrome_def split: if_splits)
  qed
  then show ?thesis
    by (meson last_in_set)
qed

lemma resolve_Nil: "resolve [] = []"
  by (simp add: resolve_def sortByLengthDesc_def)

text \<open>
  C8, as amended. When \<open>minLength > maxLength\<close> or \<open>maxLength \<le> 0\<close> the result is
  empty. A \<open>minLength\<close> of at most 3, zero and negative values included, gives the
  result of \<open>minLength = 3\<close>, which need not be empty.
\<close>

theorem findPalindromes_malformed_range:
  "(maxLength < minLength \<or> maxLength \<le> 0 \<longrightarrow> findPalindromes text minLength maxLength = [])
   \<and> (minLength \<le> 3 \<longrightarrow>
        findPalindromes text minLength maxLength = findPalindromes text 3 maxLength)"
proof (intro conjI impI)
  assume "maxLength < minLength \<or> maxLength \<le> 0"
  then show "findPalindromes text minLength maxLength = []"
    by (simp only: findPalindromes_resolve scanResults_empty resolve_Nil)
next
  assume "minLength \<le> 3"
  then have "scanResults text minLength maxLength = scanResults text 3 maxLength"
    by (rule scanResults_floor)
  then show "findPalindromes text minLength maxLength = findPalindromes text 3 maxLength"
    by (simp only: findPalindromes_resolve)
qed

theorem findPalindromes_malformed_range_witness:
  "findPalindromes [0x5D0, 0x5D1, 0x5D0] 10 5 = []
   \<and> findPalindromes [0x5D0, 0x5D1, 0x5D0] 3 0 = []
   \<and> findPalindromes [0x5D0, 0x5D1, 0x5D0] 0 50 = findPalindromes [0x5D0, 0x5D1, 0x5D0] 3 50"
  using findPalindromes_malformed_range [of 5 10 "[0x5D0, 0x5D1, 0x5D0]"]
    findPalindromes_malformed_range [of 0 3 "[0x5D0, 0x5D1, 0x5D0]"]
    findPalindromes_malformed_range [of 50 0 "[0x5D0, 0x5D1, 0x5D0]"]
  by simp

text \<open>
  The claim C8 as stated fails: with \<open>minLength = 0\<close> and \<open>maxLength = 50\<close> the
  three-letter palindrome is found.
\<close>

theorem findPalindromes_nonpositive_minLength_counterexample:
  "(0::int) \<le> 0 \<and> findPalindromes [0x5D0, 0x5D1, 0x5D0] 0 50 \<noteq> []"
  by code_simp

text \<open>
  C10. For every match returned by \<open>findPalindromes\<close>, normalizing the stored original
  text (the trimmed span) gives the stored canonical form (computed from the untrimmed
  span).
\<close>

theorem findPalindromes_original_renormalizes:
  "m \<in> set (findPalindromes text minLength maxLength) \<Longrightarrow>
     normalizeHebrew (original m) = normalized m"
proof -
  assume "m \<in> set (findPalindromes text minLength maxLength)"
  then have "m \<in> set (scanResults text minLength maxLength)"
    by (rule findPalindromes_subset)
  then obtain i j where "m = spanMatch text i j"
    unfolding scanResults_iff by blast
  then show ?thesis
    by (simp add: spanMatch_def normalizeHebrew_trim)
qed

theorem findPalindromes_original_renormalizes_witness:
  "\<lparr>normalized = [0x5D0, 0x5D1, 0x5D0], original = [0x5D0, 0x5B8, 0x20, 0x5D1, 0x20, 0x5D0],
     length_m = 3\<rparr> \<in> set (findPalindromes [0x5D0, 0x5B8, 0x20, 0x5D1, 0x20, 0x5D0, 0x20, 0x20] 3 50)
   \<and> normalizeHebrew [0x5D0, 0x5B8, 0x20, 0x5D1, 0x20, 0x5D0] = [0x5D0, 0x5D1, 0x5D0]"
proof -
  have h: "\<lparr>normalized = [0x5D0, 0x5D1, 0x5D0], original = [0x5D0, 0x5B8, 0x20, 0x5D1, 0x20, 0x5D0],
     length_m = 3\<rparr> \<in> set (findPalindromes [0x5D0, 0x5B8, 0x20, 0x5D1, 0x20, 0x5D0, 0x20, 0x20] 3 50)"
    by code_simp
  from findPalindromes_original_renormalizes [OF h] h show ?thesis
    by simp
qed

section \<open>Spans of growing length\<close>

lemma substring_take_drop:
  "i \<le> j \<Longrightarrow> substring s i j = take (min j (length s) - min i (length s)) (drop (min i (length s)) s)"
  by (simp add: substring_def Let_def min_def max_def)

lemma substring_length: "i \<le> j \<Longrightarrow> j \<le> length s \<Longrightarrow> length (substring s i j) = j - i"
  by (simp add: substring_take_drop)

lemma substring_prefix:
  assumes "i \<le> j" "j \<le> j'"
  shows "\<exists>t. substring s i j' = substring s i j @ t"
proof -
  define d where "d = drop (min i (length s)) s"
  define a where "a = min j (length s) - min i (length s)"
  define b where "b = min j' (length s) - min i (length s)"
  from assms have "a \<le> b"
    by (auto simp: a_def b_def min_def)
  then have "take a (take b d) = take a d"
    by (simp add: min_absorb1)
  then have "take b d = take a d @ drop a (take b d)"
    using append_take_drop_id [of a "take b d"] by simp
  moreover from assms have "substring s i j = take a d" "substring s i j' = take b d"
    by (simp_all add: substring_take_drop a_def b_def d_def)
  ultimately show ?thesis
    by auto
qed

lemma substring_eq: "a \<le> b \<Longrightarrow> b \<le> length s \<Longrightarrow> substring s a b = take (b - a) (drop a s)"
  by (simp add: substring_take_drop)

lemma substring_same: "substring s a a = []"
  by (simp add: substring_def Let_def)

lemma substring_Cons:
  "i < k \<Longrightarrow> k \<le> length s \<Longrightarrow> substring s i k = s ! i # substring s (Suc i) k"
proof -
  assume a: "i < k" "k \<le> length s"
  then have "drop i s = s ! i # drop (Suc i) s"
    by (simp add: Cons_nth_drop_Suc)
  moreover from a obtain d where "k - i = Suc d" "k - Suc i = d"
    by (metis Suc_diff_Suc)
  ultimately show ?thesis
    using a by (simp add: substring_eq)
qed

lemma substring_split:
  "a \<le> q \<Longrightarrow> q \<le> k \<Longrightarrow> k \<le> length s \<Longrightarrow> substring s a k = substring s a q @ substring s q k"
proof -
  assume a: "a \<le> q" "q \<le> k" "k \<le> length s"
  then have "k - a = (q - a) + (k - q)" by simp
  then have "take (k - a) (drop a s) = take (q - a) (drop a s) @ take (k - q) (drop (q - a) (drop a s))"
    by (simp only: take_add)
  with a show ?thesis
    by (simp add: substring_eq)
qed

lemma substring_prefix_eq:
  assumes "substring s a k = X' @ R" "a \<le> k" "k \<le> length s"
  shows "a + length X' \<le> k \<and> X' = substring s a (a + length X')"
proof -
  from assms have len: "length X' + length R = k - a"
    by (metis length_append substring_length)
  then have le: "a + length X' \<le> k" using assms(2) by simp
  have "take (length X') (take (k - a) (drop a s)) = take (length X') (X' @ R)"
    using assms by (simp add: substring_eq)
  then have "take (length X') (drop a s) = X'"
    using len by (simp add: min_absorb1)
  with le assms(3) show ?thesis
    by (simp add: substring_eq)
qed

lemma normalizeHebrew_no_refs:
  "stripRefs s = s \<Longrightarrow> normalizeHebrew s = concat (map sofitChar (filter (\<lambda>c. \<not> isNiqqud c) s))"
  by (simp add: normalizeHebrew_alt)

text \<open>
  C2, as amended. For a fixed start offset, the canonical length does not decrease from
  the span ending at \<open>j\<close> to the longer span ending at \<open>j'\<close> whenever reference
  stripping changes neither span; between two such spans, a canonical length above
  \<open>maxLength\<close> at \<open>j\<close> excludes a canonical length within the range at \<open>j'\<close>.
\<close>

theorem canonical_length_monotone_without_refs:
  assumes "i \<le> j" "j \<le> j'"
    and "stripRefs (substring text i j) = substring text i j"
    and "stripRefs (substring text i j') = substring text i j'"
  shows "length (normalizeHebrew (substring text i j))
           \<le> length (normalizeHebrew (substring text i j'))
         \<and> (maxLength < int (length (normalizeHebrew (substring text i j))) \<longrightarrow>
              \<not> int (length (normalizeHebrew (substring text i j'))) \<le> maxLength)"
proof -
  from assms(1,2) obtain t where t: "substring text i j' = substring text i j @ t"
    using substring_prefix by blast
  have "normalizeHebrew (substring text i j') =
      normalizeHebrew (substring text i j) @ concat (map sofitChar (filter (\<lambda>c. \<not> isNiqqud c) t))"
    using assms(3,4) by (simp add: normalizeHebrew_no_refs) (simp add: t)
  then show ?thesis by simp
qed

theorem canonical_length_monotone_without_refs_witness:
  "(0::nat) \<le> 3 \<and> (3::nat) \<le> 6
   \<and> stripRefs (substring [0x5D0, 0x5D1, 0x5D0, 0x20, 0x5D1, 0x5D0] 0 3)
       = substring [0x5D0, 0x5D1, 0x5D0, 0x20, 0x5D1, 0x5D0] 0 3
   \<and> stripRefs (substring [0x5D0, 0x5D1, 0x5D0, 0x20, 0x5D1, 0x5D0] 0 6)
       = substring [0x5D0, 0x5D1, 0x5D0, 0x20, 0x5D1, 0x5D0] 0 6
   \<and> length (normalizeHebrew (substring [0x5D0, 0x5D1, 0x5D0, 0x20, 0x5D1, 0x5D0] 0 3))
       \<le> length (normalizeHebrew (substring [0x5D0, 0x5D1, 0x5D0, 0x20, 0x5D1, 0x5D0] 0 6))
   \<and> 2 < int (length (normalizeHebrew (substring [0x5D0, 0x5D1, 0x5D0, 0x20, 0x5D1, 0x5D0] 0 3)))
   \<and> 2 < int (length (normalizeHebrew (substring [0x5D0, 0x5D1, 0x5D0, 0x20, 0x5D1, 0x5D0] 0 6)))"
proof -
  let ?T = "[0x5D0, 0x5D1, 0x5D0, 0x20, 0x5D1, 0x5D0] :: jsstring"
  have a: "(0::nat) \<le> 3" and b: "(3::nat) \<le> 6" by simp_all
  have c: "stripRefs (substring ?T 0 3) = substring ?T 0 3" by code_simp
  have d: "stripRefs (substring ?T 0 6) = substring ?T 0 6" by code_simp
  have e: "2 < int (length (normalizeHebrew (substring ?T 0 3)))" by code_simp
  from canonical_length_monotone_without_refs [OF a b c d, of 2] a b c d e show ?thesis
    by simp
qed

text \<open>
  The claim C2 as stated fails. The span of three letters has canonical length 3, and two
  code units later, when the comma and the next letter complete a reference, the span has
  canonical length 0. In the second text, with \<open>maxLength = 4\<close>, the span ending at
  offset 6 has canonical length 5 and the span ending at offset 11 has canonical length 4.
\<close>

theorem canonical_length_not_monotone_counterexample:
  "(3::nat) \<le> 5
   \<and> length (normalizeHebrew (substring [0x5D0, 0x5D1, 0x5D2, 0x2C, 0x5D3] 0 3)) = 3
   \<and> length (normalizeHebrew (substring [0x5D0, 0x5D1, 0x5D2, 0x2C, 0x5D3] 0 5)) = 0
   \<and> (4::int) < int (length (normalizeHebrew
        (substring [0x5D0, 0x5D1, 0x20, 0x5D2, 0x5D3, 0x5D4, 0x2C, 0x5D5, 0x20, 0x5D1, 0x5D0] 0 6)))
   \<and> (3::int) \<le> int (length (normalizeHebrew
        (substring [0x5D0, 0x5D1, 0x20, 0x5D2, 0x5D3, 0x5D4, 0x2C, 0x5D5, 0x20, 0x5D1, 0x5D0] 0 11)))
   \<and> int (length (normalizeHebrew
        (substring [0x5D0, 0x5D1, 0x20, 0x5D2, 0x5D3, 0x5D4, 0x2C, 0x5D5, 0x20, 0x5D1, 0x5D0] 0 11))) \<le> 4"
  by code_simp

section \<open>Completeness of the scan\<close>

lemma scanned_span_represented:
  assumes "i < j" "j \<le> length text" "isStart (text ! i)"
    and "int (j - i) \<le> maxLength * 4"
    and "\<forall>k. i < k \<and> k \<le> j \<longrightarrow> int (length (normalizeHebrew (substring text i k))) \<le> maxLength"
    and "minLength \<le> int (length (normalizeHebrew (substring text i j)))"
    and "isPalindrome (normalizeHebrew (substring text i j))"
  shows "\<exists>m \<in> set (findPalindromes text minLength maxLength).
           normalized m = normalizeHebrew (substring text i j)"
proof -
  have "withinBounds text maxLength i k" if "i < k" "k \<le> j" for k
  proof -
    from that assms(2) have "length (substring text i k) = k - i"
      by (simp add: substring_length)
    with that assms(4,5) show ?thesis
      by (simp add: withinBounds_def)
  qed
  moreover have "isHit text minLength i j"
    using assms(6,7) by (simp add: isHit_def)
  ultimately have "spanMatch text i j \<in> set (scanResults text minLength maxLength)"
    using assms(1-3) unfolding scanResults_iff by blast
  then have "\<exists>r \<in> set (findPalindromes text minLength maxLength).
      normalized r = normalized (spanMatch text i j)"
    by (rule findPalindromes_covers)
  then show ?thesis
    by (simp add: spanMatch_def)
qed

subsection \<open>Closing brackets as match boundaries\<close>

lemma takeWhile_append_stop: "\<not> P d \<Longrightarrow> takeWhile P (v @ d # t) = takeWhile P v"
  by (induction v) auto

lemma matchSeq_stop:
  "stopSafe p \<Longrightarrow> isParenClose d \<Longrightarrow> matchSeq p (v @ d # t) = matchSeq p (v @ [d])"
proof (induction p arbitrary: v rule: stopSafe.induct)
  case 1
  then show ?case by simp
next
  case (2 it)
  then have "hi it = Some 1" by simp
  moreover have "min 1 (length (takeWhile (cls it) (v @ d # t)))
      = min 1 (length (takeWhile (cls it) (v @ [d])))"
    by (cases v) auto
  ultimately show ?case by simp
next
  case (3 it it' its)
  let ?its = "it' # its"
  from "3.prems" have nd: "\<not> cls it d" and safe: "stopSafe ?its"
    by simp_all
  let ?a = "length (takeWhile (cls it) v)"
  let ?n = "case hi it of None \<Rightarrow> ?a | Some h \<Rightarrow> min h ?a"
  have tw: "takeWhile (cls it) (v @ d # t) = takeWhile (cls it) v"
    "takeWhile (cls it) (v @ [d]) = takeWhile (cls it) v"
    using nd by (simp_all add: takeWhile_append_stop)
  have n_le: "?n \<le> length v"
    using takeWhile_length_le [of "cls it" v] by (auto split: option.splits)
  have eq: "map_option (\<lambda>r. k + r) (matchSeq ?its (drop k (v @ d # t)))
      = map_option (\<lambda>r. k + r) (matchSeq ?its (drop k (v @ [d])))" if "k \<le> ?n" for k
  proof -
    from that n_le have "drop k (v @ d # t) = drop k v @ d # t" "drop k (v @ [d]) = drop k v @ [d]"
      by simp_all
    then show ?thesis
      using "3.IH" [OF safe "3.prems"(2), of "drop k v"] by simp
  qed
  have "backtrack (\<lambda>k. map_option (\<lambda>r. k + r) (matchSeq ?its (drop k (v @ d # t)))) (lo it) ?n
      = backtrack (\<lambda>k. map_option (\<lambda>r. k + r) (matchSeq ?its (drop k (v @ [d])))) (lo it) ?n"
    using eq by (rule backtrack_cong_le)
  then show ?case
    by (simp only: matchSeq.simps Let_def tw)
qed

lemma replaceG_stop:
  assumes safe: "stopSafe p" and d: "isParenClose d" and nil: "matchSeq p [] = None"
  shows "replaceG p r (v @ d # t) = replaceG p r (v @ [d]) @ replaceG p r t"
proof (induction "length v" arbitrary: v rule: less_induct)
  case less
  show ?case
  proof (cases v)
    case Nil
    have m: "matchSeq p (d # t) = matchSeq p [d]"
      using matchSeq_stop [OF safe d, of "[]" t] by simp
    show ?thesis
    proof (cases "matchSeq p [d]")
      case None
      with m Nil nil show ?thesis by simp
    next
      case (Some k)
      then have "k \<le> 1" using matchSeq_le by fastforce
      then have "k = 0 \<or> k = Suc 0" by arith
      with Some m Nil nil show ?thesis by auto
    qed
  next
    case (Cons c u)
    have m: "matchSeq p (c # u @ d # t) = matchSeq p (c # u @ [d])"
      using matchSeq_stop [OF safe d, of "c # u" t] by simp
    show ?thesis
    proof (cases "matchSeq p (c # u @ [d])")
      case None
      with m Cons less.hyps [of u] show ?thesis by simp
    next
      case (Some k)
      show ?thesis
      proof (cases k)
        case 0
        with Some m Cons less.hyps [of u] show ?thesis by simp
      next
        case (Suc k')
        from Some have "k \<le> length (c # u @ [d])" by (rule matchSeq_le)
        with Suc have k': "k' \<le> Suc (length u)" by simp
        show ?thesis
        proof (cases "k' \<le> length u")
          case True
          then have "drop k' (u @ d # t) = drop k' u @ d # t" "drop k' (u @ [d]) = drop k' u @ [d]"
            by simp_all
          moreover have "replaceG p r (drop k' u @ d # t)
              = replaceG p r (drop k' u @ [d]) @ replaceG p r t"
            using Cons by (intro less.hyps) simp
          ultimately show ?thesis
            using Some Suc m Cons by simp
        next
          case False
          with k' have "k' = Suc (length u)" by simp
          then have "drop k' (u @ d # t) = t" "drop k' (u @ [d]) = []"
            by simp_all
          then show ?thesis
            using Some Suc m Cons nil by simp
        qed
      qed
    qed
  qed
qed

lemma matchSeq_ends_last:
  "p \<noteq> [] \<Longrightarrow> lo (last p) = 1 \<Longrightarrow> hi (last p) = Some 1 \<Longrightarrow> matchSeq p s = Some n \<Longrightarrow>
     0 < n \<and> n \<le> length s \<and> cls (last p) (s ! (n - 1))"
proof (induction p arbitrary: s n)
  case Nil
  then show ?case by simp
next
  case (Cons it its)
  let ?a = "length (takeWhile (cls it) s)"
  let ?n = "case hi it of None \<Rightarrow> ?a | Some h \<Rightarrow> min h ?a"
  from Cons.prems(4) obtain k where k: "lo it \<le> k" "k \<le> ?n"
    and f: "map_option (\<lambda>r. k + r) (matchSeq its (drop k s)) = Some n"
    by (auto simp: Let_def dest!: backtrack_Some)
  then obtain r where r: "matchSeq its (drop k s) = Some r" "n = k + r"
    by auto
  have a_le: "?a \<le> length s" by (rule takeWhile_length_le)
  show ?case
  proof (cases "its = []")
    case True
    with Cons.prems have "lo it = 1" "hi it = Some 1" by simp_all
    with k have "k = 1" and "1 \<le> ?a" by simp_all
    then have "takeWhile (cls it) s \<noteq> []" by auto
    then have "s \<noteq> []" "cls it (hd s)"
      by (cases s; auto split: if_splits)+
    moreover from True r have "n = k" by simp
    ultimately show ?thesis
      using \<open>k = 1\<close> True by (cases s) auto
  next
    case False
    with Cons.prems have "lo (last its) = 1" "hi (last its) = Some 1" by simp_all
    from Cons.IH [OF False this r(1)]
    have ih: "0 < r" "r \<le> length (drop k s)" "cls (last its) (drop k s ! (r - 1))"
      by simp_all
    then have "k + (r - 1) < length s" by simp
    then have "drop k s ! (r - 1) = s ! (k + (r - 1))" by simp
    with ih r(2) False show ?thesis by simp
  qed
qed

lemma matchSeq_stop_prefix:
  assumes "stopSafe p" "X' \<noteq> []" "isParenClose (last X')"
  shows "matchSeq p (X' @ R) = matchSeq p X'"
proof -
  from assms(2) obtain v d where X': "X' = v @ [d]"
    by (cases X' rule: rev_cases) auto
  with assms(3) have "isParenClose d" by simp
  with assms(1) have "matchSeq p (v @ d # R) = matchSeq p (v @ [d])"
    by (rule matchSeq_stop)
  with X' show ?thesis by simp
qed

lemma replaceG_stop_prefix:
  assumes "stopSafe p" "matchSeq p [] = None" "X' \<noteq> []" "isParenClose (last X')"
  shows "replaceG p r (X' @ R) = replaceG p r X' @ replaceG p r R"
proof -
  from assms(3) obtain v d where X': "X' = v @ [d]"
    by (cases X' rule: rev_cases) auto
  with assms(4) have "isParenClose d" by simp
  with assms(1) have "replaceG p r (v @ d # R) = replaceG p r (v @ [d]) @ replaceG p r R"
    using assms(2) by (rule replaceG_stop)
  with X' show ?thesis by simp
qed

lemma replaceG_stop_origin:
  assumes safe: "stopSafe p" and nil: "matchSeq p [] = None"
    and r: "\<forall>c \<in> set r. \<not> isParenClose c"
  shows "n < length (replaceG p r X) \<Longrightarrow> isParenClose (replaceG p r X ! n) \<Longrightarrow>
    \<exists>X' R. X = X' @ R \<and> length (replaceG p r X') = Suc n \<and> X' \<noteq> [] \<and> isParenClose (last X')"
proof (induction "length X" arbitrary: X n rule: less_induct)
  case less
  show ?case
  proof (cases X)
    case Nil
    with less.prems nil show ?thesis by simp
  next
    case (Cons c X1)
    have copy: "\<exists>X' R. X = X' @ R \<and> length (replaceG p r X') = Suc n \<and> X' \<noteq> [] \<and> isParenClose (last X')"
      if out: "replaceG p r X = q @ c # replaceG p r X1"
        and one: "\<And>Z. matchSeq p (c # Z) = matchSeq p X \<Longrightarrow> replaceG p r (c # Z) = q @ c # replaceG p r Z"
        and q: "\<forall>c \<in> set q. \<not> isParenClose c" for q
    proof -
      from less.prems out q have "\<not> n < length q"
        by (auto simp: nth_append)
      then have nq: "length q \<le> n" by simp
      show ?thesis
      proof (cases "n = length q")
        case True
        with less.prems out have c: "isParenClose c" by (simp add: nth_append)
        have "matchSeq p (c # []) = matchSeq p X"
          using matchSeq_stop [OF safe c, of "[]" X1] Cons by simp
        then have "replaceG p r [c] = q @ [c]"
          using one [of "[]"] nil by simp
        with True c Cons show ?thesis
          by (intro exI [of _ "[c]"] exI [of _ X1]) simp
      next
        case False
        with nq obtain n' where n': "n = length q + Suc n'"
          by (metis add_Suc_right le_neq_implies_less less_imp_Suc_add)
        with less.prems out have "n' < length (replaceG p r X1)"
          "isParenClose (replaceG p r X1 ! n')"
          by (simp_all add: nth_append)
        with less.hyps [of X1 n'] Cons obtain X1' R where
          x: "X1 = X1' @ R" "length (replaceG p r X1') = Suc n'" "X1' \<noteq> []" "isParenClose (last X1')"
          by auto
        have "matchSeq p ((c # X1') @ R) = matchSeq p (c # X1')"
          using x(3,4) by (intro matchSeq_stop_prefix [OF safe]) simp_all
        with x(1) Cons have "matchSeq p (c # X1') = matchSeq p X" by simp
        then have "replaceG p r (c # X1') = q @ c # replaceG p r X1'"
          by (rule one)
        with x n' Cons show ?thesis
          by (intro exI [of _ "c # X1'"] exI [of _ R]) simp
      qed
    qed
    show ?thesis
    proof (cases "matchSeq p X")
      case None
      show ?thesis
        by (rule copy [of "[]"]) (use None Cons in \<open>simp_all\<close>)
    next
      case (Some k)
      show ?thesis
      proof (cases k)
        case 0
        show ?thesis
          by (rule copy [of r]) (use Some 0 Cons r in \<open>simp_all\<close>)
      next
        case (Suc k')
        from Some have "k \<le> length X" by (rule matchSeq_le)
        with Suc Cons have k': "k' \<le> length X1" by simp
        from Some Suc Cons have out: "replaceG p r X = r @ replaceG p r (drop k' X1)"
          by simp
        from less.prems out r have "\<not> n < length r"
          by (auto simp: nth_append)
        then obtain n' where n': "n = length r + n'"
          by (metis le_Suc_ex not_less)
        with less.prems out have "n' < length (replaceG p r (drop k' X1))"
          "isParenClose (replaceG p r (drop k' X1) ! n')"
          by (simp_all add: nth_append)
        moreover have "length (drop k' X1) < length X"
          using Cons by simp
        ultimately obtain X2 R where
          x: "drop k' X1 = X2 @ R" "length (replaceG p r X2) = Suc n'" "X2 \<noteq> []" "isParenClose (last X2)"
          using less.hyps [of "drop k' X1" n'] by blast
        let ?X' = "c # take k' X1 @ X2"
        have X: "X = ?X' @ R"
          using Cons x(1) by (metis append_Cons append_assoc append_take_drop_id)
        have "matchSeq p (?X' @ R) = matchSeq p ?X'"
          using x(3,4) by (intro matchSeq_stop_prefix [OF safe]) simp_all
        with X Some Suc have "matchSeq p ?X' = Some (Suc k')" by simp
        moreover have "drop k' (take k' X1 @ X2) = X2"
          using k' by simp
        ultimately have "replaceG p r ?X' = r @ replaceG p r X2"
          by simp
        with x n' X show ?thesis
          by (intro exI [of _ ?X'] exI [of _ R]) simp
      qed
    qed
  qed
qed

lemma stopSafe_patterns: "stopSafe refPattern" "stopSafe parenRefPattern"
  by (auto simp: refPattern_def parenRefPattern_def isParenClose_def isRefOpen_def isHebrew_def
      isRefSep_def isParenOpen_def isWhiteSpace_def word_le_nat_alt)

lemma matchSeq_patterns_Nil: "matchSeq refPattern [] = None" "matchSeq parenRefPattern [] = None"
  by (simp_all add: refPattern_def parenRefPattern_def)

lemma nonstart_classes: "\<not> isStart c \<Longrightarrow> \<not> isHebrew c \<and> \<not> isRefOpen c \<and> c \<noteq> 0x28"
  by (auto simp: isStart_def isRefOpen_def)

lemma nonstart_ref: "\<not> isStart c \<Longrightarrow> matchSeq refPattern (c # s) = None"
  unfolding refPattern_def
  by (subst matchSeq_head_optional) (simp_all add: nonstart_classes matchSeq_head_mandatory)

lemma sofitChar_nonHebrew: "\<not> isHebrew c \<Longrightarrow> sofitChar c = []"
  by (auto simp: sofitChar_def sofitMap_def isHebrew_def split: if_splits)

lemma normalizeHebrew_nonstart_copy:
  assumes "\<not> isStart c"
    and "matchSeq parenRefPattern (c # replaceG refPattern [0x20] X) = None"
  shows "normalizeHebrew (c # X) = normalizeHebrew X"
proof -
  have "stripRefs (c # X) = c # stripRefs X"
    using assms by (simp add: stripRefs_def nonstart_ref)
  then show ?thesis
    using assms(1) by (simp add: normalizeHebrew_alt sofitChar_nonHebrew nonstart_classes)
qed

lemma normalizeHebrew_bracket_swallow:
  assumes c: "\<not> isStart c"
    and X1: "X1 \<noteq> []" "isParenClose (last X1)"
    and Y: "replaceG refPattern [0x20] X1 \<noteq> []" "isParenClose (last (replaceG refPattern [0x20] X1))"
    and m: "matchSeq parenRefPattern (c # replaceG refPattern [0x20] X1)
              = Some (Suc (length (replaceG refPattern [0x20] X1)))"
  shows "normalizeHebrew (c # X1 @ T) = normalizeHebrew T"
proof -
  let ?Y = "replaceG refPattern [0x20] X1"
  have "replaceG refPattern [0x20] (c # X1 @ T) = c # replaceG refPattern [0x20] (X1 @ T)"
    using c by (simp add: nonstart_ref)
  also have "replaceG refPattern [0x20] (X1 @ T) = ?Y @ replaceG refPattern [0x20] T"
    using X1 by (intro replaceG_stop_prefix stopSafe_patterns matchSeq_patterns_Nil)
  finally have 1: "replaceG refPattern [0x20] (c # X1 @ T) = (c # ?Y) @ replaceG refPattern [0x20] T"
    by simp
  have "replaceG parenRefPattern [0x20] ((c # ?Y) @ replaceG refPattern [0x20] T)
      = replaceG parenRefPattern [0x20] (c # ?Y) @ stripRefs T"
    unfolding stripRefs_def
    using Y by (intro replaceG_stop_prefix stopSafe_patterns matchSeq_patterns_Nil) simp_all
  moreover have "replaceG parenRefPattern [0x20] (c # ?Y) = [0x20]"
    using m by (simp add: matchSeq_patterns_Nil)
  ultimately have "stripRefs (c # X1 @ T) = 0x20 # stripRefs T"
    using 1 by (simp add: stripRefs_def)
  moreover have "sofitChar 0x20 = []"
    by (rule sofitChar_ws) (simp add: isWhiteSpace_def)
  ultimately show ?thesis
    by (simp add: normalizeHebrew_alt)
qed

lemma paren_match_ends:
  assumes "matchSeq parenRefPattern s = Some n"
  shows "0 < n \<and> n \<le> length s \<and> isParenClose (s ! (n - 1))"
  using matchSeq_ends_last [of parenRefPattern s n] assms
  by (simp add: parenRefPattern_def)

lemma span_bracket:
  assumes i: "i < ks" "ks \<le> length text" and c: "\<not> isStart (text ! i)"
    and hit: "matchSeq parenRefPattern
        (text ! i # replaceG refPattern [0x20] (substring text (Suc i) ks)) \<noteq> None"
    and least: "\<forall>k. i < k \<and> k < ks \<longrightarrow> matchSeq parenRefPattern
        (text ! i # replaceG refPattern [0x20] (substring text (Suc i) k)) = None"
    and k: "ks \<le> k" "k \<le> length text"
  shows "normalizeHebrew (substring text i k) = normalizeHebrew (substring text ks k)"
proof -
  let ?c = "text ! i"
  let ?P1 = "replaceG refPattern [0x20]"
  let ?X = "substring text (Suc i) ks"
  let ?Y = "?P1 ?X"
  from hit obtain n where n: "matchSeq parenRefPattern (?c # ?Y) = Some n" by auto
  then have n0: "0 < n" "n \<le> Suc (length ?Y)" and stop: "isParenClose ((?c # ?Y) ! (n - 1))"
    using paren_match_ends by fastforce+
  have "isParenOpen ?c"
  proof (rule ccontr)
    assume "\<not> isParenOpen ?c"
    then have "matchSeq parenRefPattern (?c # ?Y) = None"
      unfolding parenRefPattern_def by (intro matchSeq_head_mandatory) simp_all
    with n show False by simp
  qed
  then have "\<not> isParenClose ?c"
    by (auto simp: isParenOpen_def isParenClose_def)
  with stop n0 obtain m where m: "n = Suc (Suc m)" "m < length ?Y" "isParenClose (?Y ! m)"
    by (cases n; cases "n - 1") auto
  have "\<forall>c \<in> set [0x20 :: cu]. \<not> isParenClose c"
    by (simp add: isParenClose_def)
  from replaceG_stop_origin [OF stopSafe_patterns(1) matchSeq_patterns_Nil(1) this m(2,3)]
  obtain X' R where X': "?X = X' @ R" "length (?P1 X') = Suc m" "X' \<noteq> []" "isParenClose (last X')"
    by blast
  have si: "Suc i \<le> ks" using i by simp
  from substring_prefix_eq [OF X'(1) si i(2)]
  have k': "Suc i + length X' \<le> ks" and X'eq: "X' = substring text (Suc i) (Suc i + length X')"
    by simp_all
  have Ysplit: "?Y = ?P1 X' @ ?P1 R"
    unfolding X'(1) using X'(3,4)
    by (intro replaceG_stop_prefix stopSafe_patterns matchSeq_patterns_Nil)
  from X'(2) have ne: "?P1 X' \<noteq> []" by auto
  then have "last (?P1 X') = ?P1 X' ! (length (?P1 X') - 1)"
    by (rule last_conv_nth)
  also have "\<dots> = ?P1 X' ! m"
    by (simp only: X'(2) diff_Suc_1)
  also have "\<dots> = ?Y ! m"
    using X'(2) by (simp only: Ysplit nth_append) simp
  finally have lastY': "?P1 X' \<noteq> []" "last (?P1 X') = ?Y ! m"
    using ne by simp_all
  have e: "matchSeq parenRefPattern ((?c # ?P1 X') @ ?P1 R) = matchSeq parenRefPattern (?c # ?P1 X')"
    using lastY' m(3) by (intro matchSeq_stop_prefix stopSafe_patterns) simp_all
  from n have "matchSeq parenRefPattern ((?c # ?P1 X') @ ?P1 R) = Some n"
    by (simp only: Ysplit append_Cons)
  then have "matchSeq parenRefPattern (?c # ?P1 X') = Some n"
    by (simp only: e)
  then have hit': "matchSeq parenRefPattern (?c # ?P1 X') \<noteq> None"
    by simp
  have "Suc i + length X' = ks"
  proof (rule ccontr)
    assume "Suc i + length X' \<noteq> ks"
    with k' have "i < Suc i + length X' \<and> Suc i + length X' < ks" by simp
    with least have "matchSeq parenRefPattern
        (?c # ?P1 (substring text (Suc i) (Suc i + length X'))) = None"
      by blast
    with X'eq hit' show False by simp
  qed
  with X'eq have XX': "X' = ?X" by simp
  with X'(2) n m(1) have whole: "matchSeq parenRefPattern (?c # ?Y) = Some (Suc (length ?Y))"
    by simp
  from XX' X'(3,4) have X1: "?X \<noteq> []" "isParenClose (last ?X)" by simp_all
  from XX' lastY' m(3) have Y1: "?Y \<noteq> []" "isParenClose (last ?Y)" by simp_all
  have "substring text i k = ?c # substring text (Suc i) k"
    using i k by (intro substring_Cons) simp_all
  also have "substring text (Suc i) k = ?X @ substring text ks k"
    using si k by (intro substring_split) simp_all
  finally have "substring text i k = ?c # ?X @ substring text ks k" .
  then show ?thesis
    using normalizeHebrew_bracket_swallow [OF c X1 Y1 whole] by simp
qed

lemma normalizeHebrew_Nil: "normalizeHebrew [] = []"
  by (simp add: normalizeHebrew_def stripRefs_def matchSeq_patterns_Nil)

lemma isPalindrome_not_Nil: "isPalindrome s \<Longrightarrow> s \<noteq> []"
  by (auto simp: isPalindrome_def)

text \<open>
  C1, as amended. Every span that is at most \<open>4 * maxLength\<close> code units long, has no
  span with the same start and an earlier or equal end whose canonical length exceeds
  \<open>maxLength\<close>, and whose canonical form satisfies \<open>isPalindrome\<close> and has at least
  \<open>minLength\<close> letters, is represented: a returned match has its canonical form. A span
  that starts outside the start class has the canonical form of a later start inside it.
\<close>

theorem findPalindromes_complete_within_bounds:
  assumes "i < j" "j \<le> length text"
    and "int (j - i) \<le> maxLength * 4"
    and "\<forall>k. i < k \<and> k \<le> j \<longrightarrow> int (length (normalizeHebrew (substring text i k))) \<le> maxLength"
    and "minLength \<le> int (length (normalizeHebrew (substring text i j)))"
    and "isPalindrome (normalizeHebrew (substring text i j))"
  shows "\<exists>m \<in> set (findPalindromes text minLength maxLength).
           normalized m = normalizeHebrew (substring text i j)"
  using assms
proof (induction "j - i" arbitrary: i rule: less_induct)
  case less
  note i = less.prems(1,2) and raw = less.prems(3) and pre = less.prems(4)
    and mn = less.prems(5) and pal = less.prems(6)
  let ?N = "\<lambda>a b. normalizeHebrew (substring text a b)"
  have step: "\<exists>m \<in> set (findPalindromes text minLength maxLength). normalized m = ?N i j"
    if q: "i < q" "q \<le> j" and eq: "\<And>k. q \<le> k \<Longrightarrow> k \<le> j \<Longrightarrow> ?N i k = ?N q k" for q
  proof -
    have "q \<noteq> j"
    proof
      assume "q = j"
      with eq [of j] have "?N i j = []"
        by (simp add: substring_same normalizeHebrew_Nil)
      with pal show False
        using isPalindrome_not_Nil by blast
    qed
    with q have qj: "q < j" by simp
    have "\<exists>m \<in> set (findPalindromes text minLength maxLength). normalized m = ?N q j"
    proof (rule less.hyps)
      show "j - q < j - i" using q qj by simp
      show "q < j" by (rule qj)
      show "j \<le> length text" by (rule i(2))
      show "int (j - q) \<le> maxLength * 4" using raw q by simp
      show "\<forall>k. q < k \<and> k \<le> j \<longrightarrow> int (length (?N q k)) \<le> maxLength"
        using pre q eq by (metis less_imp_le less_trans)
      show "minLength \<le> int (length (?N q j))"
        using mn eq [of j] q by simp
      show "isPalindrome (?N q j)"
        using pal eq [of j] q by simp
    qed
    with eq [of j] q show ?thesis by simp
  qed
  show ?case
  proof (cases "isStart (text ! i)")
    case True
    with less.prems show ?thesis
      by (intro scanned_span_represented)
  next
    case False
    let ?M = "\<lambda>k. matchSeq parenRefPattern
      (text ! i # replaceG refPattern [0x20] (substring text (Suc i) k))"
    show ?thesis
    proof (cases "\<exists>k. i < k \<and> k \<le> j \<and> ?M k \<noteq> None")
      case none: False
      have "j \<noteq> Suc i"
      proof
        assume j: "j = Suc i"
        with none have "?M j = None" by blast
        with False have "?N i j = ?N (Suc i) j"
          using substring_Cons [OF i] normalizeHebrew_nonstart_copy by simp
        with j pal show False
          using isPalindrome_not_Nil by (fastforce simp: substring_same normalizeHebrew_Nil)
      qed
      with i have "i < Suc i" "Suc i \<le> j" by simp_all
      then show ?thesis
      proof (rule step)
        fix k assume k: "Suc i \<le> k" "k \<le> j"
        with none have "?M k = None" by auto
        moreover from k i have "substring text i k = text ! i # substring text (Suc i) k"
          by (intro substring_Cons) simp_all
        ultimately show "?N i k = ?N (Suc i) k"
          using False normalizeHebrew_nonstart_copy by simp
      qed
    next
      case True
      then obtain ks where ks: "i < ks" "ks \<le> j" "?M ks \<noteq> None"
        and least: "\<forall>k < ks. \<not> (i < k \<and> k \<le> j \<and> ?M k \<noteq> None)"
        using exists_least_iff [of "\<lambda>k. i < k \<and> k \<le> j \<and> ?M k \<noteq> None"] by blast
      from least ks(2) have least': "\<forall>k. i < k \<and> k < ks \<longrightarrow> ?M k = None"
        by (metis le_trans less_imp_le)
      from ks(1,2) show ?thesis
      proof (rule step)
        fix k assume k: "ks \<le> k" "k \<le> j"
        show "?N i k = ?N ks k"
          using ks(1) _ False ks(3) least' k(1)
          by (rule span_bracket) (use ks k i in simp_all)
      qed
    qed
  qed
qed

theorem findPalindromes_complete_within_bounds_witness:
  "(0::nat) < 10
   \<and> 10 \<le> length [0x5B, 0x5D0, 0x5D1, 0x20, 0x5D2, 0x5D3, 0x5D, 0x5D4, 0x5D5, 0x5D4 :: cu]
   \<and> int (10 - 0) \<le> 4 * 4
   \<and> isPalindrome (normalizeHebrew
        (substring [0x5B, 0x5D0, 0x5D1, 0x20, 0x5D2, 0x5D3, 0x5D, 0x5D4, 0x5D5, 0x5D4] 0 10))
   \<and> normalizeHebrew (substring [0x5B, 0x5D0, 0x5D1, 0x20, 0x5D2, 0x5D3, 0x5D, 0x5D4, 0x5D5, 0x5D4] 0 10)
         \<in> normalized ` set (findPalindromes
               [0x5B, 0x5D0, 0x5D1, 0x20, 0x5D2, 0x5D3, 0x5D, 0x5D4, 0x5D5, 0x5D4] 3 4)"
proof -
  let ?T = "[0x5B, 0x5D0, 0x5D1, 0x20, 0x5D2, 0x5D3, 0x5D, 0x5D4, 0x5D5, 0x5D4] :: jsstring"
  let ?L = "\<lambda>k. int (length (normalizeHebrew (substring ?T 0 k)))"
  have h1: "(0::nat) < 10" by simp
  have h2: "10 \<le> length ?T" by simp
  have h3: "int (10 - 0) \<le> 4 * 4" by simp
  have h4: "\<forall>k. 0 < k \<and> k \<le> 10 \<longrightarrow> ?L k \<le> 4"
  proof (intro allI impI)
    fix k :: nat
    assume "0 < k \<and> k \<le> 10"
    then have "k = 1 \<or> k = 2 \<or> k = 3 \<or> k = 4 \<or> k = 5 \<or> k = 6 \<or> k = 7 \<or> k = 8 \<or> k = 9
        \<or> k = 10"
      by arith
    moreover have "?L 1 \<le> 4" by code_simp
    moreover have "?L 2 \<le> 4" by code_simp
    moreover have "?L 3 \<le> 4" by code_simp
    moreover have "?L 4 \<le> 4" by code_simp
    moreover have "?L 5 \<le> 4" by code_simp
    moreover have "?L 6 \<le> 4" by code_simp
    moreover have "?L 7 \<le> 4" by code_simp
    moreover have "?L 8 \<le> 4" by code_simp
    moreover have "?L 9 \<le> 4" by code_simp
    moreover have "?L 10 \<le> 4" by code_simp
    ultimately show "?L k \<le> 4" by blast
  qed
  have h5: "3 \<le> ?L 10" by code_simp
  have h6: "isPalindrome (normalizeHebrew (substring ?T 0 10))" by code_simp
  from findPalindromes_complete_within_bounds [OF h1 h2 h3 h4 h5 h6]
  have "normalizeHebrew (substring ?T 0 10) \<in> normalized ` set (findPalindromes ?T 3 4)"
    by force
  with h1 h2 h3 h6 show ?thesis by blast
qed

text \<open>
  The claim C1 as stated fails. In the first text the whole span is 13 code units long,
  more than \<open>4 * maxLength = 12\<close>, and its canonical form, a palindrome of three
  letters, is not returned. In the second text the whole span has a palindrome of four
  letters as its canonical form, but the span ending at offset 6 has canonical length 5,
  the inner loop stops there, and nothing is returned.
\<close>

theorem findPalindromes_misses_spans_counterexample:
  "isPalindrome (normalizeHebrew (substring
      [0x5D0, 0x20, 0x20, 0x20, 0x20, 0x20, 0x20, 0x20, 0x20, 0x20, 0x20, 0x5D1, 0x5D0] 0 13))
   \<and> length (normalizeHebrew (substring
      [0x5D0, 0x20, 0x20, 0x20, 0x20, 0x20, 0x20, 0x20, 0x20, 0x20, 0x20, 0x5D1, 0x5D0] 0 13)) = 3
   \<and> findPalindromes
      [0x5D0, 0x20, 0x20, 0x20, 0x20, 0x20, 0x20, 0x20, 0x20, 0x20, 0x20, 0x5D1, 0x5D0] 3 3 = []
   \<and> isPalindrome (normalizeHebrew (substring
      [0x5D0, 0x5D1, 0x20, 0x5D2, 0x5D3, 0x5D4, 0x2C, 0x5D5, 0x20, 0x5D1, 0x5D0] 0 11))
   \<and> length (normalizeHebrew (substring
      [0x5D0, 0x5D1, 0x20, 0x5D2, 0x5D3, 0x5D4, 0x2C, 0x5D5, 0x20, 0x5D1, 0x5D0] 0 11)) = 4
   \<and> findPalindromes
      [0x5D0, 0x5D1, 0x20, 0x5D2, 0x5D3, 0x5D4, 0x2C, 0x5D5, 0x20, 0x5D1, 0x5D0] 3 4 = []"
proof (intro conjI)
  show "isPalindrome (normalizeHebrew (substring
      [0x5D0, 0x20, 0x20, 0x20, 0x20, 0x20, 0x20, 0x20, 0x20, 0x20, 0x20, 0x5D1, 0x5D0] 0 13))"
    by code_simp
  show "length (normalizeHebrew (substring
      [0x5D0, 0x20, 0x20, 0x20, 0x20, 0x20, 0x20, 0x20, 0x20, 0x20, 0x20, 0x5D1, 0x5D0] 0 13)) = 3"
    by code_simp
  show "findPalindromes
      [0x5D0, 0x20, 0x20, 0x20, 0x20, 0x20, 0x20, 0x20, 0x20, 0x20, 0x20, 0x5D1, 0x5D0] 3 3 = []"
    by code_simp
  show "isPalindrome (normalizeHebrew (substring
      [0x5D0, 0x5D1, 0x20, 0x5D2, 0x5D3, 0x5D4, 0x2C, 0x5D5, 0x20, 0x5D1, 0x5D0] 0 11))"
    by code_simp
  show "length (normalizeHebrew (substring
      [0x5D0, 0x5D1, 0x20, 0x5D2, 0x5D3, 0x5D4, 0x2C, 0x5D5, 0x20, 0x5D1, 0x5D0] 0 11)) = 4"
    by code_simp
  show "findPalindromes
      [0x5D0, 0x5D1, 0x20, 0x5D2, 0x5D3, 0x5D4, 0x2C, 0x5D5, 0x20, 0x5D1, 0x5D0] 3 4 = []"
    by code_simp
qed

end
